theory Spec2Isabelle
  imports Complex_Main "HOL-Library.Word"
begin

unbundle bit_operations_syntax

section \<open>Lost: lattices, their loader, the model, the optimiser and the decoder\<close>

text \<open>
  This theory embeds the parts of \<^verbatim>\<open>lost.c\<close> that the properties below are about.
  C \<^verbatim>\<open>double\<close> values are modelled as real numbers (rounding is not modelled), array
  indices and counters as natural numbers, 64-bit hashes as \<open>64 word\<close>. A \<^verbatim>\<open>NULL\<close>
  result with \<^verbatim>\<open>errno\<close> set is a value \<open>Inl e\<close>. Allocation is assumed to succeed
  unless a function takes an explicit allocation flag.
\<close>

subsection \<open>String toolbox\<close>

text \<open>\<^verbatim>\<open>isspace\<close> of the C locale: space, tab, line feed, vertical tab, form feed, return.\<close>

definition isspace :: "char \<Rightarrow> bool" where
  "isspace c = (c \<in> set [CHR '' '', CHR 0x09, CHR 0x0A, CHR 0x0B, CHR 0x0C, CHR 0x0D])"

text \<open>
  \<^verbatim>\<open>str_splitsp(str, n, tok)\<close>: at most \<open>n\<close> space separated tokens; the first argument
  is \<open>n\<close>, the bound of the loop \<^verbatim>\<open>while (*str != '\0' && cnt < n)\<close>.
\<close>

fun str_splitsp :: "nat \<Rightarrow> string \<Rightarrow> string list" where
  "str_splitsp 0 s = []"
| "str_splitsp (Suc n) s =
     (let s1 = dropWhile isspace s in
      if s1 = [] then []
      else takeWhile (\<lambda>c. \<not> isspace c) s1 #
           (case dropWhile (\<lambda>c. \<not> isspace c) s1 of
              [] \<Rightarrow> []
            | _ # s2 \<Rightarrow> str_splitsp n s2))"

text \<open>
  The end-of-sample test of \<^verbatim>\<open>str_readeos\<close>: after leading spaces the line starts with
  \<^verbatim>\<open>EOS\<close> and only spaces follow.
\<close>

definition is_eos :: "string \<Rightarrow> bool" where
  "is_eos raw =
     (let line = dropWhile isspace raw in
      take 3 line = ''EOS'' \<and> dropWhile isspace (drop 3 line) = [])"

text \<open>
  \<^verbatim>\<open>str_readeos\<close> on a file given as its remaining lines: the lines before the next
  \<^verbatim>\<open>EOS\<close> mark (or the end of the file) and the lines that remain after it. The result
  is \<open>None\<close> (\<^verbatim>\<open>NULL\<close>) when no line was read.
\<close>

fun readeos_lines :: "string list \<Rightarrow> string list \<times> string list" where
  "readeos_lines [] = ([], [])"
| "readeos_lines (raw # rest) =
     (if is_eos raw then ([], rest)
      else (let (lns, rest') = readeos_lines rest in (raw # lns, rest')))"

definition str_readeos :: "string list \<Rightarrow> string list option \<times> string list" where
  "str_readeos file =
     (let (lns, rest) = readeos_lines file in
      if lns = [] then (None, rest) else (Some lns, rest))"

subsection \<open>Vocabulary of state names\<close>

text \<open>
  \<^verbatim>\<open>voc_str2id\<close> gives every new key the next identifier, in order of first appearance.
  The vocabulary is modelled by the vector \<^verbatim>\<open>voc->vect\<close> of its keys; the splay tree
  that indexes the vector is not modelled.
\<close>

type_synonym voc = "string list"

fun voc_find :: "voc \<Rightarrow> string \<Rightarrow> nat \<Rightarrow> nat option" where
  "voc_find [] key i = None"
| "voc_find (k # ks) key i = (if k = key then Some i else voc_find ks key (Suc i))"

definition voc_str2id :: "voc \<Rightarrow> string \<Rightarrow> voc \<times> nat" where
  "voc_str2id v key =
     (case voc_find v key 0 of
        Some i \<Rightarrow> (v, i)
      | None \<Rightarrow> (v @ [key], length v))"

subsection \<open>Transducers\<close>

text \<open>
  The input part of \<^verbatim>\<open>struct arc_s\<close>. Labels are interned objects in the source; here
  a label is the string it was made from. \<^verbatim>\<open>MAX_REAL\<close> is 0, so \<^verbatim>\<open>wgh\<close> has no
  element.
\<close>

record arc_t =
  src :: nat
  trg :: nat
  ilbl :: string
  olbl :: string

text \<open>The adjacency part of \<^verbatim>\<open>struct state_s\<close>: \<^verbatim>\<open>icnt\<close> and \<^verbatim>\<open>ocnt\<close> are the lengths.\<close>

record state_t =
  ilst :: "nat list"
  olst :: "nat list"

record fst_t =
  mult :: real
  narcs :: nat
  nstates :: nat
  final :: nat
  arcs :: "arc_t list"

datatype err = ENOMEM | EZEPFMT | EZEPFST

subsection \<open>Dataset loader\<close>

text \<open>
  The line loop of \<^verbatim>\<open>dat_parse\<close>. The state is the vocabulary of state names, the arcs
  read so far, \<^verbatim>\<open>fst->nstates\<close> and the token of the final state (\<open>None\<close> is
  \<^verbatim>\<open>NULL\<close>).
\<close>

fun dat_parse_lines ::
  "string list \<Rightarrow> voc \<Rightarrow> arc_t list \<Rightarrow> nat \<Rightarrow> string option
     \<Rightarrow> err + (voc \<times> arc_t list \<times> nat \<times> string option)" where
  "dat_parse_lines [] sts as ns fin = Inr (sts, as, ns, fin)"
| "dat_parse_lines (line # lns) sts as ns fin =
     (let toks = str_splitsp 4 line; ntoks = length toks in
      if take 1 line = ''#'' then dat_parse_lines lns sts as ns fin
      else if ntoks = 0 then dat_parse_lines lns sts as ns fin
      else if ntoks = 3 then Inl EZEPFMT
      else if ntoks \<le> 2 then
        (if fin \<noteq> None then Inl EZEPFMT
         else dat_parse_lines lns sts as ns (Some (toks ! 0)))
      else
        (let (sts1, s) = voc_str2id sts (toks ! 0);
             (sts2, t) = voc_str2id sts1 (toks ! 1);
             ns1 = max (max ns (s + 1)) (t + 1);
             a = \<lparr>src = s, trg = t, ilbl = toks ! 2, olbl = toks ! 3\<rparr>
         in dat_parse_lines lns sts2 (as @ [a]) ns1 fin))"

definition dat_parse :: "string list \<Rightarrow> err + fst_t" where
  "dat_parse lns =
     (case dat_parse_lines lns [] [] 0 None of
        Inl e \<Rightarrow> Inl e
      | Inr (sts, as, ns, fin) \<Rightarrow>
          (case fin of
             None \<Rightarrow> Inl EZEPFMT
           | Some f \<Rightarrow>
               Inr \<lparr>mult = 0, narcs = length as, nstates = ns,
                    final = snd (voc_str2id sts f), arcs = as\<rparr>))"

text \<open>
  \<^verbatim>\<open>dat_load\<close>. The source stores the multiplier through the pointer that
  \<^verbatim>\<open>dat_parse\<close> returned before it tests the pointer:
  \<^verbatim>\<open>
    fst_t *fst = dat_parse(lns, mdl);
    fst->mult = mult;
    for (int i = 0; lns[i] != NULL; i++, ln++) free(lns[i]);
    free(lns);
    if (fst == NULL) return ln;
  \<close>
  A store through \<^verbatim>\<open>NULL\<close> is the fault \<open>NullDeref\<close>. The result of a run that does
  not fault is the dataset and the returned integer (0, or a line number).
\<close>

datatype fault = NullDeref

definition store_mult :: "(err + fst_t) \<Rightarrow> real \<Rightarrow> fault + (err + fst_t)" where
  "store_mult p m =
     (case p of
        Inl e \<Rightarrow> Inl NullDeref
      | Inr f \<Rightarrow> Inr (Inr (f\<lparr>mult := m\<rparr>)))"

function dat_load_loop ::
  "real \<Rightarrow> string list \<Rightarrow> fst_t list \<Rightarrow> nat \<Rightarrow> fault + (fst_t list \<times> nat)" where
  "dat_load_loop m file dat lno =
     (if file = [] then Inr (dat, 0)
      else
        (case str_readeos file of
           (None, rest) \<Rightarrow> Inr (dat, 0)
         | (Some lns, rest) \<Rightarrow>
             (case store_mult (dat_parse lns) m of
                Inl flt \<Rightarrow> Inl flt
              | Inr p \<Rightarrow>
                  (let lno' = lno + length lns in
                   case p of
                     Inl e \<Rightarrow> Inr (dat, lno')
                   | Inr f \<Rightarrow> dat_load_loop m rest (dat @ [f]) lno'))))"
  by pat_completeness auto

lemma readeos_lines_length:
  "readeos_lines fl = (lns, rest) \<Longrightarrow> length rest \<le> length fl"
  by (induction fl arbitrary: lns rest) (auto split: if_splits prod.splits)

lemma readeos_lines_shorter:
  "readeos_lines fl = (lns, rest) \<Longrightarrow> fl \<noteq> [] \<Longrightarrow> length rest < length fl"
proof (cases fl)
  case Nil
  assume "fl \<noteq> []"
  with Nil show ?thesis by simp
next
  case (Cons raw tl)
  assume r: "readeos_lines fl = (lns, rest)"
  show ?thesis
  proof (cases "is_eos raw")
    case True
    with r Cons show ?thesis by simp
  next
    case False
    obtain l' r' where e: "readeos_lines tl = (l', r')" by (cases "readeos_lines tl")
    with r Cons False have "rest = r'" by simp
    with readeos_lines_length [OF e] Cons show ?thesis by simp
  qed
qed

termination dat_load_loop
proof (relation "measure (\<lambda>(m, fl, dat, lno). length fl)", goal_cases)
  case 1
  show ?case by simp
next
  case (2 m fl dat lno x lns rest xa xb xc)
  then show ?case
    by (auto simp: str_readeos_def split: prod.splits if_splits dest: readeos_lines_shorter)
qed

definition dat_load :: "fst_t list \<Rightarrow> string list \<Rightarrow> real \<Rightarrow> fault + (fst_t list \<times> nat)" where
  "dat_load dat file m = dat_load_loop m file dat 1"


subsection \<open>Adjacency lists and topological orders\<close>

text \<open>
  \<^verbatim>\<open>fst_addstates\<close>. The first passes of the source only count the arcs of each state to
  cut one buffer into the lists; the last pass fills them:
  \<^verbatim>\<open>src->olst[src->ocnt++] = ia; trg->ilst[trg->icnt++] = ia;\<close>
\<close>

definition add_arc :: "arc_t list \<Rightarrow> nat \<Rightarrow> state_t list \<Rightarrow> state_t list" where
  "add_arc as ia sts =
     (let s = src (as ! ia); t = trg (as ! ia);
          sts1 = sts[s := (sts ! s)\<lparr>olst := olst (sts ! s) @ [ia]\<rparr>]
      in sts1[t := (sts1 ! t)\<lparr>ilst := ilst (sts1 ! t) @ [ia]\<rparr>])"

definition fst_addstates :: "fst_t \<Rightarrow> state_t list" where
  "fst_addstates f =
     fold (add_arc (arcs f)) [0..<narcs f] (replicate (nstates f) \<lparr>ilst = [], olst = []\<rparr>)"

text \<open>
  \<^verbatim>\<open>fst_toposort\<close>. \<open>topo_deg\<close> is the first loop (the degrees; \<^verbatim>\<open>lst[n] = n\<close> is
  \<open>[0..<N]\<close>), \<open>topo_front\<close> the loop that swaps the states of degree 0 to the front of
  \<open>lst\<close> from position \<open>done\<close> on and returns \<open>last\<close> with it, \<open>topo_lower\<close> the loop
  that decreases the degrees of the neighbours of the states of the class found.
\<close>

definition topo_deg :: "state_t list \<Rightarrow> nat \<Rightarrow> bool \<Rightarrow> int list" where
  "topo_deg sts N rv =
     map (\<lambda>n. if \<not> rv then int (length (ilst (sts ! n))) else int (length (olst (sts ! n))))
       [0..<N]"

definition topo_front :: "int list \<Rightarrow> nat \<Rightarrow> nat \<Rightarrow> nat list \<Rightarrow> nat list \<times> nat" where
  "topo_front deg N done lst =
     fold (\<lambda>n (lst, lastp).
             if deg ! (lst ! n) \<noteq> 0 then (lst, lastp)
             else (lst[n := lst ! lastp, lastp := lst ! n], Suc lastp))
       [done..<N] (lst, done)"

definition topo_lower ::
  "arc_t list \<Rightarrow> state_t list \<Rightarrow> bool \<Rightarrow> nat list \<Rightarrow> nat \<Rightarrow> nat \<Rightarrow> int list \<Rightarrow> int list" where
  "topo_lower as sts rv lst done lastp deg =
     fold (\<lambda>ni deg.
             (let n = lst ! ni in
              if \<not> rv then
                fold (\<lambda>a deg. deg[trg (as ! a) := deg ! trg (as ! a) - 1]) (olst (sts ! n)) deg
              else
                fold (\<lambda>a deg. deg[src (as ! a) := deg ! src (as ! a) - 1]) (ilst (sts ! n)) deg))
       [done..<lastp] deg"

text \<open>
  The main loop. The result is the returned flag (\<open>False\<close> is 0, with
  \<^verbatim>\<open>errno = EZEPFST\<close>) and the content of the caller's array \<open>lst\<close> at the return.
\<close>

lemma topo_front_fold_ge:
  "l \<le> snd (fold (\<lambda>n (lst, lastp).
                     if deg ! (lst ! n) \<noteq> 0 then (lst, lastp)
                     else (lst[n := lst ! lastp, lastp := lst ! n], Suc lastp)) ns (lst, l))"
proof (induction ns arbitrary: lst l)
  case Nil
  show ?case by simp
next
  case (Cons n ns)
  show ?case
  proof (cases "deg ! (lst ! n) \<noteq> 0")
    case True
    with Cons.IH [where lst = lst and l = l] show ?thesis by simp
  next
    case False
    with Cons.IH [where lst = "lst[n := lst ! l, l := lst ! n]" and l = "Suc l"]
    show ?thesis by simp
  qed
qed

lemma topo_front_ge: "topo_front deg N dn lst = (lst1, lastp) \<Longrightarrow> dn \<le> lastp"
  using topo_front_fold_ge [where l = dn and deg = deg and ns = "[dn..<N]" and lst = lst]
  by (simp add: topo_front_def)

function topo_loop ::
  "arc_t list \<Rightarrow> state_t list \<Rightarrow> bool \<Rightarrow> nat \<Rightarrow> int list \<Rightarrow> nat list \<Rightarrow> nat \<Rightarrow> bool \<times> nat list"
  where
  "topo_loop as sts rv N deg lst done =
     (if done < N then
        (case topo_front deg N done lst of
           (lst1, lastp) \<Rightarrow>
             if done = 0 \<and> lastp \<noteq> 1 then (False, lst1)
             else if lastp = done then (False, lst1)
             else topo_loop as sts rv N (topo_lower as sts rv lst1 done lastp deg) lst1 lastp)
      else (True, lst))"
  by pat_completeness auto
termination
proof (relation "measure (\<lambda>(as, sts, rv, N, deg, lst, dn). N - dn)", goal_cases)
  case 1
  show ?case by simp
next
  case (2 as sts rv N deg lst dn lst1 lastp)
  from topo_front_ge [OF 2(2) [symmetric]] 2 show ?case
    by (simp add: 2(2) [symmetric])
qed

definition fst_toposort :: "fst_t \<Rightarrow> state_t list \<Rightarrow> bool \<Rightarrow> bool \<times> nat list" where
  "fst_toposort f sts rv =
     topo_loop (arcs f) sts rv (nstates f) (topo_deg sts (nstates f) rv) [0..<nstates f] 0"

text \<open>
  \<^verbatim>\<open>fst_addsort\<close>. The arcs of the states are appended in the order of \<open>lst\<close>, an arc
  whose flag is already set is skipped. The value returned by \<^verbatim>\<open>fst_toposort\<close> is not
  used by the source:
  \<^verbatim>\<open>
    fst_toposort(fst, lst, 0);
    for (int is = 0, p = 0; is < S; is++) { ... }
    fst_toposort(fst, lst, 1);
    for (int is = 0, p = 0; is < S; is++) { ... }
    return 1;
  \<close>
  The only failure is that of \<^verbatim>\<open>malloc\<close>; \<open>alloc\<close> tells whether it succeeds.
\<close>

definition sort_arcs ::
  "(state_t \<Rightarrow> nat list) \<Rightarrow> state_t list \<Rightarrow> nat list \<Rightarrow> nat \<Rightarrow> nat list \<Rightarrow> nat list \<times> nat list"
  where
  "sort_arcs sel sts lst mark flg =
     fold (\<lambda>n (out, flg).
             fold (\<lambda>a (out, flg).
                     if flg ! a = mark then (out, flg)
                     else (out @ [a], flg[a := mark]))
               (sel (sts ! n)) (out, flg))
       lst ([], flg)"

definition fst_addsort :: "bool \<Rightarrow> fst_t \<Rightarrow> state_t list \<Rightarrow> err + (nat list \<times> nat list)" where
  "fst_addsort alloc f sts =
     (if \<not> alloc then Inl ENOMEM
      else
        (let flg0 = replicate (narcs f) 0;
             (r1, lst1) = fst_toposort f sts False;
             (s2t, flg1) = sort_arcs olst sts lst1 1 flg0;
             (r2, lst2) = fst_toposort f sts True;
             (t2s, flg2) = sort_arcs ilst sts lst2 2 flg1
         in Inr (s2t, t2s)))"

text \<open>
  The orders that the forward and the backward pass need: \<open>s2t\<close> lists every arc once,
  and every in-arc of the source state of an arc comes strictly before the arc; dually
  for \<open>t2s\<close> and the out-arcs of the target state.
\<close>

definition arc_pos :: "nat list \<Rightarrow> nat \<Rightarrow> nat" where
  "arc_pos xs a = length (takeWhile (\<lambda>b. b \<noteq> a) xs)"

definition s2t_sorted :: "fst_t \<Rightarrow> state_t list \<Rightarrow> nat list \<Rightarrow> bool" where
  "s2t_sorted f sts s2t =
     (distinct s2t \<and> set s2t = {0..<narcs f} \<and>
      list_all (\<lambda>e. list_all (\<lambda>i. arc_pos s2t i < arc_pos s2t e)
                           (ilst (sts ! src (arcs f ! e)))) s2t)"

definition t2s_sorted :: "fst_t \<Rightarrow> state_t list \<Rightarrow> nat list \<Rightarrow> bool" where
  "t2s_sorted f sts t2s =
     (distinct t2s \<and> set t2s = {0..<narcs f} \<and>
      list_all (\<lambda>e. list_all (\<lambda>k. arc_pos t2s k < arc_pos t2s e)
                           (olst (sts ! trg (arcs f ! e)))) t2s)"

text \<open>
  The lattice of the three arc lines \<^verbatim>\<open>0 1 a a\<close>, \<^verbatim>\<open>1 2 a a\<close>, \<^verbatim>\<open>2 0 a a\<close> with the
  final state \<^verbatim>\<open>2\<close>, as \<^verbatim>\<open>dat_parse\<close> builds it: a cycle through the three states.
\<close>

definition cyclic_fst :: fst_t where
  "cyclic_fst =
     \<lparr>mult = 0, narcs = 3, nstates = 3, final = 2,
      arcs = [\<lparr>src = 0, trg = 1, ilbl = ''a'', olbl = ''a''\<rparr>,
              \<lparr>src = 1, trg = 2, ilbl = ''a'', olbl = ''a''\<rparr>,
              \<lparr>src = 2, trg = 0, ilbl = ''a'', olbl = ''a''\<rparr>]\<rparr>"

subsection \<open>Bit operations\<close>

text \<open>
  A hash is a 64-bit word. \<^verbatim>\<open>bit_reverse\<close> and \<^verbatim>\<open>bit_clearmsb\<close> are the C versions
  of the source (the branch taken when \<^verbatim>\<open>__x86_64\<close> is not defined); \<^verbatim>\<open>v >> k\<close> is
  \<open>drop_bit k v\<close> and \<^verbatim>\<open>v << k\<close> is \<open>push_bit k v\<close>.
\<close>

type_synonym hsh_t = "64 word"

definition bit_reverse :: "hsh_t \<Rightarrow> hsh_t" where
  "bit_reverse v0 =
     (let v1 = (drop_bit 1 v0 AND 0x5555555555555555) OR push_bit 1 (v0 AND 0x5555555555555555);
          v2 = (drop_bit 2 v1 AND 0x3333333333333333) OR push_bit 2 (v1 AND 0x3333333333333333);
          v3 = (drop_bit 4 v2 AND 0x0F0F0F0F0F0F0F0F) OR push_bit 4 (v2 AND 0x0F0F0F0F0F0F0F0F);
          v4 = (drop_bit 8 v3 AND 0x00FF00FF00FF00FF) OR push_bit 8 (v3 AND 0x00FF00FF00FF00FF);
          v5 = (drop_bit 16 v4 AND 0x0000FFFF0000FFFF) OR push_bit 16 (v4 AND 0x0000FFFF0000FFFF)
      in drop_bit 32 v5 OR push_bit 32 v5)"

definition bit_clearmsb :: "hsh_t \<Rightarrow> hsh_t" where
  "bit_clearmsb v =
     (let t0 = v;
          t1 = t0 OR drop_bit 1 t0; t2 = t1 OR drop_bit 2 t1;
          t3 = t2 OR drop_bit 4 t2; t4 = t3 OR drop_bit 8 t3;
          t5 = t4 OR drop_bit 16 t4; t6 = t5 OR drop_bit 32 t5
      in v AND drop_bit 1 t6)"

text \<open>One line of \<^verbatim>\<open>bit_reverse\<close>, named for the proofs.\<close>

definition bit_swap :: "nat \<Rightarrow> hsh_t \<Rightarrow> hsh_t \<Rightarrow> hsh_t" where
  "bit_swap s m v = (drop_bit s v AND m) OR push_bit s (v AND m)"

text \<open>The macros \<^verbatim>\<open>key_normal\<close>, \<^verbatim>\<open>key_marker\<close>, \<^verbatim>\<open>key_tohash\<close> and \<^verbatim>\<open>key_ismark\<close>.\<close>

definition key_normal :: "hsh_t \<Rightarrow> hsh_t" where
  "key_normal k = bit_reverse k OR 1"

definition key_marker :: "hsh_t \<Rightarrow> hsh_t" where
  "key_marker k = bit_reverse k AND NOT 1"

definition key_tohash :: "hsh_t \<Rightarrow> hsh_t" where
  "key_tohash k = bit_reverse (k AND NOT 1)"

definition key_ismark :: "hsh_t \<Rightarrow> bool" where
  "key_ismark k = (k AND 1 = 0)"

text \<open>
  Clearing the most significant bit gives a smaller value: the recursion of
  \<^verbatim>\<open>map_getbkt\<close> on the parent bucket ends.
\<close>

lemma smear_step:
  assumes "\<And>m. bit t m \<Longrightarrow> \<exists>j\<ge>m. bit (v::hsh_t) j"
  shows "bit (t OR drop_bit k t) m \<Longrightarrow> \<exists>j\<ge>m. bit v j"
proof -
  assume "bit (t OR drop_bit k t) m"
  then consider "bit t m" | "bit t (m + k)"
    by (auto simp: bit_or_iff bit_drop_bit_eq add.commute)
  then show ?thesis
  proof cases
    case 1
    then show ?thesis by (rule assms)
  next
    case 2
    from assms [OF 2] obtain j where "j \<ge> m + k" "bit v j" by blast
    then show ?thesis by (intro exI [of _ j]) simp
  qed
qed

lemma bit_clearmsb_bit:
  assumes "bit (bit_clearmsb v) m"
  shows "bit v m \<and> (\<exists>j>m. bit v j)"
proof -
  define t1 where "t1 = v OR drop_bit 1 v"
  define t2 where "t2 = t1 OR drop_bit 2 t1"
  define t3 where "t3 = t2 OR drop_bit 4 t2"
  define t4 where "t4 = t3 OR drop_bit 8 t3"
  define t5 where "t5 = t4 OR drop_bit 16 t4"
  define t6 where "t6 = t5 OR drop_bit 32 t5"
  have c: "bit_clearmsb v = v AND drop_bit 1 t6"
    unfolding bit_clearmsb_def Let_def t1_def t2_def t3_def t4_def t5_def t6_def
    by (rule refl)
  have p0: "\<And>m. bit v m \<Longrightarrow> \<exists>j\<ge>m. bit v j" by blast
  have p1: "\<And>m. bit t1 m \<Longrightarrow> \<exists>j\<ge>m. bit v j"
    unfolding t1_def by (rule smear_step [OF p0])
  have p2: "\<And>m. bit t2 m \<Longrightarrow> \<exists>j\<ge>m. bit v j"
    unfolding t2_def by (rule smear_step [OF p1])
  have p3: "\<And>m. bit t3 m \<Longrightarrow> \<exists>j\<ge>m. bit v j"
    unfolding t3_def by (rule smear_step [OF p2])
  have p4: "\<And>m. bit t4 m \<Longrightarrow> \<exists>j\<ge>m. bit v j"
    unfolding t4_def by (rule smear_step [OF p3])
  have p5: "\<And>m. bit t5 m \<Longrightarrow> \<exists>j\<ge>m. bit v j"
    unfolding t5_def by (rule smear_step [OF p4])
  have p6: "\<And>m. bit t6 m \<Longrightarrow> \<exists>j\<ge>m. bit v j"
    unfolding t6_def by (rule smear_step [OF p5])
  from assms have a: "bit v m" and b: "bit t6 (Suc m)"
    by (simp_all add: c bit_and_iff bit_drop_bit_eq)
  from p6 [OF b] obtain j where "j \<ge> Suc m" "bit v j" by blast
  with a show ?thesis by (intro conjI exI [of _ j]) simp_all
qed

lemma bit_clearmsb_less:
  assumes "v \<noteq> 0"
  shows "bit_clearmsb v < v"
proof -
  have le: "bit_clearmsb v \<le> v"
    by (simp add: bit_clearmsb_def Let_def word_and_le2)
  have "bit_clearmsb v \<noteq> v"
  proof
    assume e: "bit_clearmsb v = v"
    from assms obtain n where n: "bit v n" by (auto simp: bit_eq_iff)
    have fin: "finite {j. bit v j}"
      by (rule finite_subset [of _ "{..<64}"]) (auto dest: bit_imp_le_length)
    define M where "M = Max {j. bit v j}"
    have "M \<in> {j. bit v j}" unfolding M_def using fin n by (intro Max_in) auto
    then have "bit (bit_clearmsb v) M" by (simp add: e)
    from bit_clearmsb_bit [OF this] obtain j where j: "j > M" "bit v j" by blast
    then have "j \<le> M" unfolding M_def using fin by (intro Max_ge) auto
    with j show False by simp
  qed
  with le show ?thesis by simp
qed

subsection \<open>Lock-free list and hash table, run sequentially\<close>

text \<open>
  A list node (\<^verbatim>\<open>lst_t\<close>) is its key with the payload of the object that embeds it;
  the sentinel nodes of the buckets have no payload. The linked list that starts after
  the dummy head \<^verbatim>\<open>map->list\<close> is the list of its nodes in link order. A pointer to a
  node is the key of the node (\<open>NodeAt k\<close>) or the dummy head (\<open>ListHead\<close>); a pointer
  to a node that is not in the list is an invalid pointer, and using it is \<open>None\<close>.

  The model is that of a sequential run: no compare-and-swap fails, and no next pointer
  carries a deletion tag between two operations (\<^verbatim>\<open>lst_remove\<close> unlinks the node it
  has tagged before it returns), so the branch of \<^verbatim>\<open>lst_search\<close> that unlinks tagged
  nodes is never taken. The bucket table is the list of its non-null entries, each the
  bucket index with the node it points to; the segments of the two-level table are not
  modelled.
\<close>

type_synonym 'v lst_t = "hsh_t \<times> 'v option"

datatype lst_ref = ListHead | NodeAt hsh_t

record 'v map_t =
  map_list :: "'v lst_t list"
  map_bucket :: "(hsh_t \<times> hsh_t) list"
  map_size :: nat
  map_count :: nat
  map_grow :: nat

fun lst_from :: "'v lst_t list \<Rightarrow> lst_ref \<Rightarrow> ('v lst_t list \<times> 'v lst_t list) option" where
  "lst_from l ListHead = Some ([], l)"
| "lst_from l (NodeAt k) =
     (case dropWhile (\<lambda>n. fst n \<noteq> k) l of
        [] \<Rightarrow> None
      | n # aft \<Rightarrow> Some (takeWhile (\<lambda>n. fst n \<noteq> k) l @ [n], aft))"

fun lst_walk ::
  "'v lst_t list \<Rightarrow> hsh_t \<Rightarrow> 'v lst_t list \<Rightarrow> 'v lst_t option \<times> 'v lst_t list \<times> 'v lst_t list"
  where
  "lst_walk pre key [] = (None, pre, [])"
| "lst_walk pre key (n # ns) =
     (if fst n \<ge> key then ((if fst n = key then Some n else None), pre, n # ns)
      else lst_walk (pre @ [n]) key ns)"

definition lst_search ::
  "'v lst_t list \<Rightarrow> lst_ref \<Rightarrow> hsh_t
     \<Rightarrow> ('v lst_t option \<times> 'v lst_t list \<times> 'v lst_t list) option" where
  "lst_search l head key =
     (case lst_from l head of
        None \<Rightarrow> None
      | Some (pre, aft) \<Rightarrow> Some (lst_walk pre key aft))"

definition lst_find :: "'v lst_t list \<Rightarrow> lst_ref \<Rightarrow> hsh_t \<Rightarrow> 'v lst_t option option" where
  "lst_find l head key =
     (case lst_search l head key of
        None \<Rightarrow> None
      | Some (res, p0, p1) \<Rightarrow> Some res)"

definition lst_insert ::
  "'v lst_t list \<Rightarrow> lst_ref \<Rightarrow> 'v lst_t \<Rightarrow> (bool \<times> 'v lst_t \<times> 'v lst_t list) option" where
  "lst_insert l head node =
     (case lst_search l head (fst node) of
        None \<Rightarrow> None
      | Some (Some n, p0, p1) \<Rightarrow> Some (False, n, l)
      | Some (None, p0, p1) \<Rightarrow> Some (True, node, p0 @ node # p1))"

definition map_new :: "'v map_t" where
  "map_new = \<lparr>map_list = [(key_marker 0, None)], map_bucket = [(0, key_marker 0)],
              map_size = 16, map_count = 0, map_grow = 8\<rparr>"

text \<open>
  \<^verbatim>\<open>map_getbkt\<close>. The assertion \<^verbatim>\<open>bkt < 0x100000000\<close> failing is \<open>None\<close>. If bucket 0
  had no head the source would call itself for ever (\<^verbatim>\<open>bit_clearmsb(0)\<close> is 0): that
  is \<open>None\<close> as well.
\<close>

function map_getbkt :: "'v map_t \<Rightarrow> hsh_t \<Rightarrow> ('v map_t \<times> lst_ref) option" where
  "map_getbkt m bkt =
     (if \<not> bkt < 0x100000000 then None
      else
        (case map_of (map_bucket m) bkt of
           Some k \<Rightarrow> Some (m, NodeAt k)
         | None \<Rightarrow>
             if bkt = 0 then None
             else
               (case map_getbkt m (bit_clearmsb bkt) of
                  None \<Rightarrow> None
                | Some (m1, prev) \<Rightarrow>
                    (case lst_insert (map_list m1) prev (key_marker bkt, None) of
                       None \<Rightarrow> None
                     | Some (ins, res, l') \<Rightarrow>
                         Some (m1\<lparr>map_list := l',
                                   map_bucket := (bkt, fst res) # map_bucket m1\<rparr>,
                               NodeAt (fst res))))))"
  by pat_completeness auto
termination
  by (relation "measure (\<lambda>(m, bkt). unat bkt)")
     (auto simp: word_less_nat_alt [symmetric] bit_clearmsb_less)

definition map_find :: "'v map_t \<Rightarrow> hsh_t \<Rightarrow> ('v map_t \<times> 'v lst_t option) option" where
  "map_find m hash =
     (let bkt = hash AND (of_nat (map_size m) - 1);
          key = key_normal hash
      in case map_getbkt m bkt of
           None \<Rightarrow> None
         | Some (m1, head) \<Rightarrow>
             (case lst_find (map_list m1) head key of
                None \<Rightarrow> None
              | Some res \<Rightarrow> Some (m1, res)))"

definition map_insert ::
  "'v map_t \<Rightarrow> hsh_t \<Rightarrow> 'v \<Rightarrow> ('v map_t \<times> 'v lst_t \<times> bool) option" where
  "map_insert m hash val =
     (let bkt = hash AND (of_nat (map_size m) - 1);
          key = key_normal hash
      in case map_getbkt m bkt of
           None \<Rightarrow> None
         | Some (m1, head) \<Rightarrow>
             (case lst_insert (map_list m1) head (key, Some val) of
                None \<Rightarrow> None
              | Some (ins, res, l') \<Rightarrow>
                  if ins then
                    (let size = map_size m1;
                         cnt = map_count m1 + 1;
                         m2 = m1\<lparr>map_list := l', map_count := cnt\<rparr>
                     in if cnt div size > map_grow m1
                        then Some (m2\<lparr>map_size := size * 2\<rparr>, res, True)
                        else Some (m2, res, True))
                  else Some (m1, res, False)))"


definition map_get :: "'v map_t \<Rightarrow> hsh_t \<Rightarrow> 'v lst_t option" where
  "map_get m h = find (\<lambda>n. fst n = key_normal h) (map_list m)"

definition map_inv :: "'v map_t \<Rightarrow> bool" where
  "map_inv m =
     (sorted_wrt (<) (map fst (map_list m)) \<and>
      list_all (\<lambda>(b, k). k = key_marker b \<and> b < 0x100000000 \<and> k \<in> fst ` set (map_list m))
        (map_bucket m) \<and>
      map_of (map_bucket m) 0 \<noteq> None \<and>
      list_all (\<lambda>(k, p). key_ismark k \<longleftrightarrow> p = None) (map_list m) \<and>
      list_ex (\<lambda>k. map_size m = 2 ^ k) [0..<33] \<and>
      map_grow m = 8)"

text \<open>The result of inserting a node at its place in a list sorted by key.\<close>

definition lst_put :: "'v lst_t list \<Rightarrow> 'v lst_t \<Rightarrow> 'v lst_t list" where
  "lst_put l node =
     takeWhile (\<lambda>n. fst n < fst node) l @ node # dropWhile (\<lambda>n. fst n < fst node) l"

text \<open>
  What one operation may change of a table besides the entry it is about: it may add
  sentinel nodes, nothing else.
\<close>

definition map_frame :: "'v map_t \<Rightarrow> 'v map_t \<Rightarrow> bool" where
  "map_frame m m' =
     (set (map_list m) \<subseteq> set (map_list m') \<and>
      list_all (\<lambda>n. n \<in> set (map_list m) \<or> key_ismark (fst n)) (map_list m') \<and>
      map_size m' = map_size m \<and> map_count m' = map_count m \<and> map_grow m' = map_grow m)"

subsection \<open>RPROP optimiser\<close>

text \<open>
  \<^verbatim>\<open>struct ftr_s\<close> without its list item: weight, gradient, previous gradient, step,
  last update and frequency. (\<^verbatim>\<open>gp\<close>, \<^verbatim>\<open>stp\<close> and \<^verbatim>\<open>dlt\<close> are C floats.)
\<close>

record ftr_t =
  ftr_x :: real
  ftr_g :: real
  ftr_gp :: real
  ftr_stp :: real
  ftr_dlt :: real
  ftr_frq :: int

record rbp_t =
  rho1 :: "real list"
  rho2 :: "real list"
  rho3 :: "real list"
  stpinc :: real
  stpdec :: real
  stpmin :: real
  stpmax :: real

text \<open>\<^verbatim>\<open>rbp_new\<close>: tag 0 gets 0, the tags 1 to 127 get the value -1.\<close>

definition rho_new :: "real list" where
  "rho_new = 0 # replicate 127 (- 1)"

definition rbp_new :: rbp_t where
  "rbp_new = \<lparr>rho1 = rho_new, rho2 = rho_new, rho3 = rho_new,
              stpinc = 12 / 10, stpdec = 1 / 2, stpmin = 1 / 10 ^ 8, stpmax = 50\<rparr>"

text \<open>
  One \<^verbatim>\<open>--tag-rho\<close> item of the command line as \<^verbatim>\<open>sscanf\<close> reads it: with a tag
  (\<^verbatim>\<open>"%d:%lf"\<close> matched both fields) or without (\<^verbatim>\<open>"%lf"\<close>, and the tag is 0).
  The store \<^verbatim>\<open>rbp->rho1[tag] = val\<close> has no bound check; a tag outside the array is
  \<open>None\<close>.
\<close>

datatype rho_item = Tagged int real | Untagged real

fun rho_store :: "real list \<Rightarrow> rho_item \<Rightarrow> real list option" where
  "rho_store r (Tagged tag val) =
     (if 0 \<le> tag \<and> nat tag < length r then Some (r[nat tag := val]) else None)"
| "rho_store r (Untagged val) =
     (if 0 < length r then Some (r[0 := val]) else None)"

fun rho_args :: "real list \<Rightarrow> rho_item list \<Rightarrow> real list option" where
  "rho_args r [] = Some r"
| "rho_args r (it # its) =
     (case rho_store r it of None \<Rightarrow> None | Some r' \<Rightarrow> rho_args r' its)"

text \<open>
  The loop of \<^verbatim>\<open>main\<close> that follows the three option loops:
  \<^verbatim>\<open>for (int i = 1; i < 128; i++) if (rbp->rho1[i] == -1.0) rbp->rho1[i] = rbp->rho1[0];\<close>
\<close>

definition rho_default :: "real list \<Rightarrow> real list" where
  "rho_default r = fold (\<lambda>i r. if r ! i = - 1 then r[i := r ! 0] else r) [1..<128] r"

definition rho_setup :: "rho_item list \<Rightarrow> real list option" where
  "rho_setup its = map_option rho_default (rho_args rho_new its)"

definition main_rbp :: "rho_item list \<Rightarrow> rho_item list \<Rightarrow> rho_item list \<Rightarrow> rbp_t option" where
  "main_rbp tag_rho1 tag_rho2 tag_rho3 =
     (case (rho_setup tag_rho1, rho_setup tag_rho2, rho_setup tag_rho3) of
        (Some r1, Some r2, Some r3) \<Rightarrow> Some (rbp_new\<lparr>rho1 := r1, rho2 := r2, rho3 := r3\<rparr>)
      | _ \<Rightarrow> None)"

text \<open>\<^verbatim>\<open>EPSILON\<close> is \<^verbatim>\<open>DBL_EPSILON * 64.0\<close>, that is \<open>2 ^ 6 / 2 ^ 52\<close>.\<close>

definition EPSILON :: real where
  "EPSILON = 1 / 2 ^ 46"

text \<open>
  The body of the loop of \<^verbatim>\<open>rbp_step\<close> for one feature of tag \<open>tag\<close>: the feature is
  removed, skipped, or updated. \<open>itr\<close>, \<open>mfrq\<close>, \<open>stt\<close> and \<open>rem\<close> are the fields
  \<^verbatim>\<open>itr\<close>, \<^verbatim>\<open>frq\<close>, \<^verbatim>\<open>stt\<close> and \<^verbatim>\<open>rem\<close> of the model.
\<close>

datatype rbp_action = Removed | Skipped | Updated ftr_t

definition rbp_project :: "real \<Rightarrow> real \<Rightarrow> real \<Rightarrow> real" where
  "rbp_project ar xv gv =
     (if ar \<noteq> 0 then
        (if xv < - EPSILON then gv - ar
         else if xv > EPSILON then gv + ar
         else if gv < - ar then gv + ar
         else if gv > ar then gv - ar
         else 0)
      else gv)"

definition rbp_feature ::
  "rbp_t \<Rightarrow> int \<Rightarrow> int \<Rightarrow> int list \<Rightarrow> int list \<Rightarrow> nat \<Rightarrow> ftr_t \<Rightarrow> rbp_action" where
  "rbp_feature rb itr mfrq stt rem tag f =
     (if ftr_x f = 0 \<and> rem ! tag \<le> itr then Removed
      else if ftr_frq f < mfrq then Removed
      else if stt ! tag > itr then Skipped
      else
        (let stp0 = (if ftr_stp f = 0 then 1 / 10 else ftr_stp f);
             r1 = rho1 rb ! tag; r2 = rho2 rb ! tag; r3 = rho3 rb ! tag;
             g1 = ftr_g f + r2 * ftr_x f;
             ar = r1 + r3 * of_int (ftr_frq f);
             pg = rbp_project ar (ftr_x f) g1;
             sgn = ftr_gp f * pg;
             stp1 = (if sgn < - EPSILON then max (stp0 * stpdec rb) (stpmin rb)
                     else if sgn > EPSILON then min (stp0 * stpinc rb) (stpmax rb)
                     else stp0)
         in if sgn < 0 then
              Updated (f\<lparr>ftr_x := ftr_x f - ftr_dlt f, ftr_g := 0, ftr_gp := 0,
                         ftr_stp := stp1, ftr_frq := 0\<rparr>)
            else
              (let d0 = (if pg < - EPSILON then stp1
                         else if pg > EPSILON then - stp1
                         else 0);
                   d1 = (if r1 \<noteq> 0 \<and> d0 * pg \<ge> 0 then 0 else d0)
               in Updated (f\<lparr>ftr_x := ftr_x f + d1, ftr_g := 0, ftr_gp := g1,
                             ftr_stp := stp1, ftr_dlt := d1, ftr_frq := 0\<rparr>))))"

subsection \<open>Model\<close>

text \<open>
  \<^verbatim>\<open>hsh_spooky\<close> on a buffer of whole 64-bit words, which is what \<^verbatim>\<open>mdl_addftr\<close>
  hashes (\<^verbatim>\<open>sizeof(hsh_t) * n\<close> bytes, read through \<^verbatim>\<open>key.p64\<close>): the loop takes four
  words at a time, the \<^verbatim>\<open>if\<close> two more, and the \<^verbatim>\<open>switch\<close> sees 8 or 0 remaining
  bytes. \<open>rot64 k\<close> is \<^verbatim>\<open>(v << k) | (v >> (64 - k))\<close>.
\<close>

definition rot64 :: "nat \<Rightarrow> hsh_t \<Rightarrow> hsh_t" where
  "rot64 k v = push_bit k v OR drop_bit (64 - k) v"

type_synonym spooky = "hsh_t \<times> hsh_t \<times> hsh_t \<times> hsh_t"

definition spooky_mix :: "spooky \<Rightarrow> spooky" where
  "spooky_mix s =
     (case s of (a, b, c, d) \<Rightarrow>
      let c = rot64 50 c; c = c + d; a = a XOR c;
          d = rot64 52 d; d = d + a; b = b XOR d;
          a = rot64 30 a; a = a + b; c = c XOR a;
          b = rot64 41 b; b = b + c; d = d XOR b;
          c = rot64 54 c; c = c + d; a = a XOR c;
          d = rot64 48 d; d = d + a; b = b XOR d;
          a = rot64 38 a; a = a + b; c = c XOR a;
          b = rot64 37 b; b = b + c; d = d XOR b;
          c = rot64 62 c; c = c + d; a = a XOR c;
          d = rot64 34 d; d = d + a; b = b XOR d;
          a = rot64 5 a; a = a + b; c = c XOR a;
          b = rot64 36 b; b = b + c; d = d XOR b
      in (a, b, c, d))"

definition spooky_end :: "spooky \<Rightarrow> hsh_t" where
  "spooky_end s =
     (case s of (a, b, c, d) \<Rightarrow>
      let d = d XOR c; c = rot64 15 c; d = d + c;
          a = a XOR d; d = rot64 52 d; a = a + d;
          b = b XOR a; a = rot64 26 a; b = b + a;
          c = c XOR b; b = rot64 51 b; c = c + b;
          d = d XOR c; c = rot64 28 c; d = d + c;
          a = a XOR d; d = rot64 9 d; a = a + d;
          b = b XOR a; a = rot64 47 a; b = b + a;
          c = c XOR b; b = rot64 54 b; c = c + b;
          d = d XOR c; c = rot64 32 c; d = d + c;
          a = a XOR d; d = rot64 25 d; a = a + d;
          b = b XOR a; a = rot64 63 a; b = b + a
      in a)"

definition spooky_foo :: hsh_t where
  "spooky_foo = 0xDEADBEEFCAFEBABE"

fun spooky_words :: "spooky \<Rightarrow> hsh_t list \<Rightarrow> hsh_t" where
  "spooky_words (a, b, c, d) (k0 # k1 # k2 # k3 # ks) =
     (case spooky_mix (a, b, c + k0, d + k1) of
        (a, b, c, d) \<Rightarrow> spooky_words (a + k2, b + k3, c, d) ks)"
| "spooky_words (a, b, c, d) [k0, k1, k2] =
     (case spooky_mix (a, b, c + k0, d + k1) of
        (a, b, c, d) \<Rightarrow> spooky_end (a, b, c + k2, d + push_bit 56 8))"
| "spooky_words (a, b, c, d) [k0, k1] =
     (case spooky_mix (a, b, c + k0, d + k1) of
        (a, b, c, d) \<Rightarrow> spooky_end (a, b, c + spooky_foo, d + spooky_foo))"
| "spooky_words (a, b, c, d) [k0] = spooky_end (a, b, c + k0, d + push_bit 56 8)"
| "spooky_words (a, b, c, d) [] = spooky_end (a, b, c + spooky_foo, d + spooky_foo)"

definition hsh_spooky :: "hsh_t list \<Rightarrow> hsh_t" where
  "hsh_spooky buf = spooky_words (spooky_foo, spooky_foo, spooky_foo, spooky_foo) buf"

definition hsh_buffer :: "hsh_t list \<Rightarrow> hsh_t" where
  "hsh_buffer buf = hsh_spooky buf AND 0x7FFFFFFFFFFFFFFF"

text \<open>
  The model: the feature table, the iteration, the minimal frequency, the activation
  windows of the tags and the lines written to the feature dump (\<open>None\<close> when there is
  no dump file).
\<close>

record mdl_t =
  mdl_ftrs :: "ftr_t map_t"
  mdl_itr :: int
  mdl_frq :: int
  mdl_stt :: "int list"
  mdl_rem :: "int list"
  mdl_dump :: "hsh_t list list option"

definition ftr_zero :: ftr_t where
  "ftr_zero = \<lparr>ftr_x = 0, ftr_g = 0, ftr_gp = 0, ftr_stp = 0, ftr_dlt = 0, ftr_frq = 0\<rparr>"

definition mdl_new :: mdl_t where
  "mdl_new = \<lparr>mdl_ftrs = map_new, mdl_itr = 0, mdl_frq = 0, mdl_stt = replicate 128 0,
              mdl_rem = replicate 128 2147483647, mdl_dump = None\<rparr>"

text \<open>A store through a pointer to the node of key \<open>k\<close>: the node gets the new payload.\<close>

definition map_store :: "'v map_t \<Rightarrow> hsh_t \<Rightarrow> 'v \<Rightarrow> 'v map_t" where
  "map_store m k v =
     m\<lparr>map_list := map (\<lambda>(k', p). if k' = k then (k', Some v) else (k', p)) (map_list m)\<rparr>"

definition ftr_key :: "nat \<Rightarrow> hsh_t list \<Rightarrow> hsh_t" where
  "ftr_key tag hsh = (hsh_buffer hsh AND drop_bit 8 (- 1)) OR push_bit 56 (of_nat tag)"

text \<open>
  \<^verbatim>\<open>atm_add(&ftr->frq, 1)\<close> is \<^verbatim>\<open>__sync_add_and_fetch\<close> on an \<^verbatim>\<open>int\<close>: the sum wraps around
  in 32 bits, two's complement (\<open>wrap_int\<close>).
\<close>

definition wrap_int :: "int \<Rightarrow> int" where
  "wrap_int i = (i + 2147483648) mod 4294967296 - 2147483648"

definition atm_add_frq :: "ftr_t \<Rightarrow> ftr_t" where
  "atm_add_frq f = f\<lparr>ftr_frq := wrap_int (ftr_frq f + 1)\<rparr>"

text \<open>
  \<^verbatim>\<open>mdl_addftr\<close>. \<open>frq\<close> tells whether the frequency is counted, \<open>alloc\<close> whether
  \<^verbatim>\<open>malloc\<close> succeeds. A failing assertion is \<open>None\<close>. The result is the new model and
  the feature returned (\<open>None\<close> is \<^verbatim>\<open>NULL\<close>); \<open>is_tmp\<close> is the test \<^verbatim>\<open>ftr == tmp\<close>.
\<close>

definition mdl_addftr ::
  "mdl_t \<Rightarrow> nat \<Rightarrow> hsh_t list \<Rightarrow> bool \<Rightarrow> bool \<Rightarrow> (mdl_t \<times> ftr_t option) option" where
  "mdl_addftr mdl tag hsh frq alloc =
     (if \<not> (tag < 128 \<and> hsh \<noteq> []) then None
      else
        (let idx = ftr_key tag hsh in
         case map_find (mdl_ftrs mdl) idx of
           None \<Rightarrow> None
         | Some (m1, Some (k, None)) \<Rightarrow> None
         | Some (m1, Some (k, Some f)) \<Rightarrow>
             if frq then
               Some (mdl\<lparr>mdl_ftrs := map_store m1 k (atm_add_frq f)\<rparr>, Some (atm_add_frq f))
             else Some (mdl\<lparr>mdl_ftrs := m1\<rparr>, Some f)
         | Some (m1, None) \<Rightarrow>
             if mdl_itr mdl < mdl_stt mdl ! tag \<or> mdl_itr mdl \<ge> mdl_rem mdl ! tag then
               Some (mdl\<lparr>mdl_ftrs := m1\<rparr>, None)
             else if \<not> alloc then Some (mdl\<lparr>mdl_ftrs := m1\<rparr>, None)
             else
               (case map_insert m1 idx ftr_zero of
                  None \<Rightarrow> None
                | Some (m2, (k, None), is_tmp) \<Rightarrow> None
                | Some (m2, (k, Some f), is_tmp) \<Rightarrow>
                    if \<not> is_tmp then
                      (if frq then
                         Some (mdl\<lparr>mdl_ftrs := map_store m2 k (atm_add_frq f)\<rparr>,
                               Some (atm_add_frq f))
                       else Some (mdl\<lparr>mdl_ftrs := m2\<rparr>, Some f))
                    else
                      (let dump' = (case mdl_dump mdl of
                                      None \<Rightarrow> None
                                    | Some out \<Rightarrow> Some (out @ [idx # hsh]))
                       in if frq then
                            Some (mdl\<lparr>mdl_ftrs := map_store m2 k (atm_add_frq f),
                                      mdl_dump := dump'\<rparr>, Some (atm_add_frq f))
                          else Some (mdl\<lparr>mdl_ftrs := m2, mdl_dump := dump'\<rparr>, Some f)))))"

text \<open>The feature that \<^verbatim>\<open>mdl_addftr\<close> returns, read off the table before the call.\<close>

definition addftr_expect ::
  "mdl_t \<Rightarrow> nat \<Rightarrow> hsh_t list \<Rightarrow> bool \<Rightarrow> bool \<Rightarrow> ftr_t option" where
  "addftr_expect mdl tag hsh frq alloc =
     (case map_get (mdl_ftrs mdl) (ftr_key tag hsh) of
        Some (k, p) \<Rightarrow> map_option (\<lambda>f. if frq then atm_add_frq f else f) p
      | None \<Rightarrow>
          if mdl_itr mdl < mdl_stt mdl ! tag \<or> mdl_itr mdl \<ge> mdl_rem mdl ! tag then None
          else if \<not> alloc then None
          else Some (if frq then atm_add_frq ftr_zero else ftr_zero))"

subsection \<open>Model file\<close>










subsection \<open>Viterbi decoder\<close>


























section \<open>Properties\<close>

subsection \<open>Loader\<close>

lemma dat_load_loop_malformed:
  assumes "str_readeos fl = (Some lns, rest)" and "fl \<noteq> []" and "dat_parse lns = Inl e"
  shows "dat_load_loop m fl dat lno = Inl NullDeref"
  using assms by (subst dat_load_loop.simps) (simp add: store_mult_def)

lemma dat_load_loop_code:
  "dat_load_loop m fl dat lno = Inr (dat', r) \<Longrightarrow> r = 0"
proof (induction m fl dat lno rule: dat_load_loop.induct)
  case (1 m fl dat lno)
  show ?case
  proof (cases "fl = []")
    case True
    with "1.prems" show ?thesis by (subst (asm) dat_load_loop.simps) simp
  next
    case False
    obtain ol r' where rd: "str_readeos fl = (ol, r')" by (cases "str_readeos fl")
    show ?thesis
    proof (cases ol)
      case None
      with False rd "1.prems" show ?thesis by (subst (asm) dat_load_loop.simps) simp
    next
      case (Some lns)
      show ?thesis
      proof (cases "dat_parse lns")
        case (Inl e)
        with False rd Some "1.prems" show ?thesis
          by (subst (asm) dat_load_loop.simps) (simp add: store_mult_def)
      next
        case (Inr f)
        have sm: "store_mult (dat_parse lns) m = Inr (Inr (f\<lparr>mult := m\<rparr>))"
          using Inr by (simp add: store_mult_def)
        from "1.prems" False rd Some sm
        have "dat_load_loop m r' (dat @ [f\<lparr>mult := m\<rparr>]) (lno + length lns) = Inr (dat', r)"
          by (subst (asm) dat_load_loop.simps) simp
        then show ?thesis
          by (rule "1.IH" [OF False rd [symmetric] Some sm refl refl])
      qed
    qed
  qed
qed

text \<open>
  C5. A file whose sample has a three token line makes \<^verbatim>\<open>dat_parse\<close> return
  \<^verbatim>\<open>NULL\<close> with a format error. \<^verbatim>\<open>dat_load\<close> then stores the multiplier through the
  null pointer: the run faults, it does not return the line number of the error.
\<close>

theorem dat_load_null_store:
  "dat_parse [''0 1 a'', ''1''] = Inl EZEPFMT \<and>
   dat_load [] [''0 1 a'', ''1'', ''EOS''] 1 = Inl NullDeref"
  by code_simp


subsection \<open>Regularisation constants\<close>

lemma rho_default_fold:
  "n \<le> length r \<Longrightarrow>
   length (fold (\<lambda>i r. if r ! i = - 1 then r[i := r ! 0] else r) [1..<n] r) = length r \<and>
   (\<forall>t < length r.
      fold (\<lambda>i r. if r ! i = - 1 then r[i := r ! 0] else r) [1..<n] r ! t =
        (if 1 \<le> t \<and> t < n \<and> r ! t = - 1 then r ! 0 else r ! t))"
proof (induction n)
  case 0
  then show ?case by simp
next
  case (Suc n)
  show ?case
  proof (cases "n = 0")
    case True
    then show ?thesis by simp
  next
    case False
    then have u: "[1..<Suc n] = [1..<n] @ [n]" by simp
    from Suc
    have ih: "length (fold (\<lambda>i r. if r ! i = - 1 then r[i := r ! 0] else r) [1..<n] r) = length r"
      "\<forall>t < length r.
         fold (\<lambda>i r. if r ! i = - 1 then r[i := r ! 0] else r) [1..<n] r ! t =
           (if 1 \<le> t \<and> t < n \<and> r ! t = - 1 then r ! 0 else r ! t)"
      by simp_all
    from Suc.prems have nl: "n < length r" by simp
    from nl have ne: "0 < length r" by linarith
    from ih(2) [rule_format, OF ne] ih(2) [rule_format, OF nl] False
    have i0: "fold (\<lambda>i r. if r ! i = - 1 then r[i := r ! 0] else r) [1..<n] r ! 0 = r ! 0"
      and i1: "fold (\<lambda>i r. if r ! i = - 1 then r[i := r ! 0] else r) [1..<n] r ! n = r ! n"
      by simp_all
    show ?thesis unfolding u using ih nl False i0 i1
      by (auto simp: nth_list_update less_Suc_eq)
  qed
qed

lemma rho_default_nth:
  assumes "length r = 128" and "t < 128"
  shows "rho_default r ! t = (if 1 \<le> t \<and> r ! t = - 1 then r ! 0 else r ! t)"
  using rho_default_fold [of 128 r] assms by (simp add: rho_default_def)

lemma rho_store_length: "rho_store r it = Some r' \<Longrightarrow> length r' = length r"
  by (cases it) (auto split: if_splits)

lemma rho_args_length: "rho_args r its = Some r' \<Longrightarrow> length r' = length r"
  by (induction its arbitrary: r) (auto split: option.splits dest: rho_store_length)

lemma rho_new_length: "length rho_new = 128"
  by (simp add: rho_new_def)

lemma rho_setup_nth:
  assumes "rho_args rho_new its = Some stored" and "t < 128"
  shows "\<exists>final. rho_setup its = Some final \<and>
           final ! t = (if 1 \<le> t \<and> stored ! t = - 1 then stored ! 0 else stored ! t)"
proof -
  have "length stored = 128"
    using rho_args_length [OF assms(1)] by (simp add: rho_new_length)
  then show ?thesis
    using assms by (simp add: rho_setup_def rho_default_nth)
qed

text \<open>The value stored for a tag is the value of the last item that names the tag.\<close>

lemma rho_args_snoc:
  "rho_args r (its @ [it]) =
     (case rho_args r its of None \<Rightarrow> None | Some r' \<Rightarrow> rho_store r' it)"
  by (induction its arbitrary: r) (auto split: option.splits)

lemma rho_args_explicit:
  assumes "rho_args r (its @ [Tagged (int t) v]) = Some stored"
  shows "stored ! t = v"
  using assms by (auto simp: rho_args_snoc split: option.splits if_splits)

text \<open>
  C10. Let \<open>s1\<close>, \<open>s2\<close>, \<open>s3\<close> be the arrays as the command line leaves them (the
  defaults of \<^verbatim>\<open>rbp_new\<close> overwritten by the \<^verbatim>\<open>--tag-rho\<close> items). For a tag
  \<open>t \<ge> 1\<close> the constant used by the optimiser is the value of tag 0 exactly when the
  stored value is -1, and the stored value otherwise; for tag 0 it is always the stored
  value. So an explicit -1 for a tag \<open>t \<ge> 1\<close> is replaced by the value of tag 0, and
  every other explicit value is kept.
\<close>

theorem rho_sentinel_fallback:
  assumes "rho_args rho_new a1 = Some s1"
    and "rho_args rho_new a2 = Some s2"
    and "rho_args rho_new a3 = Some s3"
    and "t < 128"
  shows "\<exists>rb. main_rbp a1 a2 a3 = Some rb \<and>
           rho1 rb ! t = (if 1 \<le> t \<and> s1 ! t = - 1 then s1 ! 0 else s1 ! t) \<and>
           rho2 rb ! t = (if 1 \<le> t \<and> s2 ! t = - 1 then s2 ! 0 else s2 ! t) \<and>
           rho3 rb ! t = (if 1 \<le> t \<and> s3 ! t = - 1 then s3 ! 0 else s3 ! t)"
proof -
  from rho_setup_nth [OF assms(1) assms(4)] obtain f1 where
    f1: "rho_setup a1 = Some f1"
        "f1 ! t = (if 1 \<le> t \<and> s1 ! t = - 1 then s1 ! 0 else s1 ! t)" by blast
  from rho_setup_nth [OF assms(2) assms(4)] obtain f2 where
    f2: "rho_setup a2 = Some f2"
        "f2 ! t = (if 1 \<le> t \<and> s2 ! t = - 1 then s2 ! 0 else s2 ! t)" by blast
  from rho_setup_nth [OF assms(3) assms(4)] obtain f3 where
    f3: "rho_setup a3 = Some f3"
        "f3 ! t = (if 1 \<le> t \<and> s3 ! t = - 1 then s3 ! 0 else s3 ! t)" by blast
  have "main_rbp a1 a2 a3 = Some (rbp_new\<lparr>rho1 := f1, rho2 := f2, rho3 := f3\<rparr>)"
    using f1(1) f2(1) f3(1) by (simp add: main_rbp_def)
  with f1(2) f2(2) f3(2) show ?thesis by simp
qed

text \<open>
  With \<^verbatim>\<open>--tag-rho1 3:-1 --tag-rho1 0.5 --tag-rho1 5:2\<close> and \<^verbatim>\<open>--tag-rho3 0:-1\<close>, tag 3
  gets the value 0.5 of tag 0 for \<open>rho1\<close>, the default 0 for \<open>rho2\<close>, and the explicit
  -1 of tag 0 for \<open>rho3\<close>.
\<close>

theorem rho_sentinel_fallback_witness:
  "rho_args rho_new [Tagged 3 (- 1), Untagged (1 / 2), Tagged 5 2]
     = Some ((1 / 2) # replicate 4 (- 1) @ [2] @ replicate 122 (- 1)) \<and>
   rho_args rho_new [] = Some rho_new \<and>
   rho_args rho_new [Tagged 0 (- 1)] = Some (replicate 128 (- 1)) \<and>
   (3::nat) < 128 \<and>
   (\<exists>rb. main_rbp [Tagged 3 (- 1), Untagged (1 / 2), Tagged 5 2] [] [Tagged 0 (- 1)] = Some rb \<and>
      rho1 rb ! 3 = 1 / 2 \<and> rho2 rb ! 3 = 0 \<and> rho3 rb ! 3 = - 1)"
proof -
  have h1: "rho_args rho_new [Tagged 3 (- 1), Untagged (1 / 2), Tagged 5 2]
     = Some ((1 / 2) # replicate 4 (- 1) @ [2] @ replicate 122 (- 1))"
    by code_simp
  have h2: "rho_args rho_new [] = Some rho_new" by simp
  have h3: "rho_args rho_new [Tagged 0 (- 1)] = Some (replicate 128 (- 1))"
    by code_simp
  have h4: "(3::nat) < 128" by simp
  have e1: "((1 / 2) # replicate 4 (- 1) @ [2] @ replicate 122 (- 1)) ! 3 = (- 1::real)"
    by code_simp
  have e2: "((1 / 2) # replicate 4 (- 1) @ [2] @ replicate 122 (- 1)) ! 0 = (1 / 2::real)"
    by simp
  have e3: "rho_new ! 3 = - 1" "rho_new ! 0 = 0" by (simp_all add: rho_new_def)
  have e4: "replicate 128 (- 1::real) ! 3 = - 1" "replicate 128 (- 1::real) ! 0 = - 1"
    by simp_all
  from rho_sentinel_fallback [OF h1 h2 h3 h4] e1 e2 e3 e4 h1 h2 h3 show ?thesis
    by simp
qed

subsection \<open>Weight update\<close>

text \<open>
  With a positive step, the update chosen in the last branch of \<^verbatim>\<open>rbp_step\<close> has the
  sign opposite to \<open>pg\<close> or is 0. The test \<^verbatim>\<open>ftr->dlt * pg >= 0.0\<close> therefore holds
  only when the update is already 0: it never cancels a step.
\<close>

lemma rbp_guard_inert:
  assumes "0 < s"
  shows "(let d0 = (if pg < - EPSILON then s else if pg > EPSILON then - s else 0)
          in (if r1 \<noteq> 0 \<and> d0 * pg \<ge> 0 then 0 else d0) = d0)"
proof -
  have e: "0 < EPSILON" by (simp add: EPSILON_def)
  show ?thesis
    using assms e by (auto simp: Let_def mult_le_0_iff zero_le_mult_iff)
qed

text \<open>
  C9. A feature read from a model file with weight \<open>1/16\<close> (all other fields 0), with
  gradient 1 after the gradient pass, and \<^verbatim>\<open>--tag-rho1 0.5\<close>: the sweep takes the step
  \<open>-1/10\<close> and the weight becomes \<open>-3/80\<close>. The weight has gone from strictly positive to
  strictly negative without stopping at 0.
\<close>

theorem rbp_step_crosses_zero:
  "main_rbp [Untagged (1 / 2)] [] [] =
     Some (rbp_new\<lparr>rho1 := replicate 128 (1 / 2), rho2 := replicate 128 0,
                    rho3 := replicate 128 0\<rparr>) \<and>
   rbp_feature
     (rbp_new\<lparr>rho1 := replicate 128 (1 / 2), rho2 := replicate 128 0, rho3 := replicate 128 0\<rparr>)
     1 0 (replicate 128 0) (replicate 128 2147483647) 0
     \<lparr>ftr_x = 1 / 16, ftr_g = 1, ftr_gp = 0, ftr_stp = 0, ftr_dlt = 0, ftr_frq = 0\<rparr>
   = Updated \<lparr>ftr_x = - 3 / 80, ftr_g = 0, ftr_gp = 1, ftr_stp = 1 / 10,
              ftr_dlt = - 1 / 10, ftr_frq = 0\<rparr>"
  by code_simp


subsection \<open>Invalid lattices\<close>

text \<open>
  C4. The cyclic lattice is loaded without error. \<^verbatim>\<open>fst_toposort\<close> finds no state
  without incoming arc and returns 0, but \<^verbatim>\<open>fst_addsort\<close> (called by
  \<^verbatim>\<open>grd_worker\<close> and \<^verbatim>\<open>dec_decode\<close>, which do not test its result either) drops that
  value, fills both orders from the untouched state list and returns 1: nothing rejects
  the sample.
\<close>

theorem cyclic_lattice_not_rejected:
  "dat_parse [''0 1 a a'', ''1 2 a a'', ''2 0 a a'', ''2''] = Inr cyclic_fst \<and>
   dat_load [] [''0 1 a a'', ''1 2 a a'', ''2 0 a a'', ''2'', ''EOS''] 1
     = Inr ([cyclic_fst\<lparr>mult := 1\<rparr>], 0) \<and>
   fst_toposort cyclic_fst (fst_addstates cyclic_fst) False = (False, [0, 1, 2]) \<and>
   fst_toposort cyclic_fst (fst_addstates cyclic_fst) True = (False, [0, 1, 2]) \<and>
   fst_addsort True cyclic_fst (fst_addstates cyclic_fst) = Inr ([0, 1, 2], [2, 0, 1])"
  by code_simp

text \<open>
  C3. On the same lattice \<^verbatim>\<open>fst_addsort\<close> succeeds, and neither order is topological:
  arc 0 leaves state 0, whose in-arc 2 comes after arc 0 in \<open>s2t\<close>.
\<close>

theorem fst_addsort_cyclic_unsorted:
  "fst_addsort True cyclic_fst (fst_addstates cyclic_fst) = Inr ([0, 1, 2], [2, 0, 1]) \<and>
   \<not> s2t_sorted cyclic_fst (fst_addstates cyclic_fst) [0, 1, 2] \<and>
   \<not> t2s_sorted cyclic_fst (fst_addstates cyclic_fst) [2, 0, 1]"
  by code_simp

subsection \<open>Bit reversal and split-order keys\<close>

lemma less_numeral_pred:
  "(n < numeral k) = (n < pred_numeral k \<or> n = pred_numeral k)"
  by (auto simp: numeral_eq_Suc less_Suc_eq)

lemma bit_bit_swap:
  "n < 64 \<Longrightarrow> bit (bit_swap s m v) n \<longleftrightarrow>
     (bit m n \<and> bit v (n + s)) \<or> (s \<le> n \<and> bit m (n - s) \<and> bit v (n - s))"
  by (auto simp: bit_swap_def bit_simps add.commute)

lemma swap1: "n < 64 \<Longrightarrow> bit (bit_swap (Suc 0) 0x5555555555555555 v) n = bit v (if even n then n + 1 else n - 1)"
  by (simp add: less_numeral_pred, elim disjE) (simp_all add: bit_bit_swap)
lemma swap2: "n < 64 \<Longrightarrow> bit (bit_swap 2 0x3333333333333333 v) n = bit v (if n mod 4 < 2 then n + 2 else n - 2)"
  by (simp add: less_numeral_pred, elim disjE) (simp_all add: bit_bit_swap)
lemma swap4: "n < 64 \<Longrightarrow> bit (bit_swap 4 0x0F0F0F0F0F0F0F0F v) n = bit v (if n mod 8 < 4 then n + 4 else n - 4)"
  by (simp add: less_numeral_pred, elim disjE) (simp_all add: bit_bit_swap)
lemma swap8: "n < 64 \<Longrightarrow> bit (bit_swap 8 0x00FF00FF00FF00FF v) n = bit v (if n mod 16 < 8 then n + 8 else n - 8)"
  by (simp add: less_numeral_pred, elim disjE) (simp_all add: bit_bit_swap)
lemma swap16: "n < 64 \<Longrightarrow> bit (bit_swap 16 0x0000FFFF0000FFFF v) n = bit v (if n mod 32 < 16 then n + 16 else n - 16)"
  by (simp add: less_numeral_pred, elim disjE) (simp_all add: bit_bit_swap)
lemma swap32: "n < 64 \<Longrightarrow> bit (drop_bit 32 v OR push_bit 32 v) n = bit (v::hsh_t) (if n < 32 then n + 32 else n - 32)"
  by (auto simp: bit_simps add.commute dest: bit_imp_le_length)

lemma bit_reverse_swaps:
  "bit_reverse v =
     (let v5 = bit_swap 16 0x0000FFFF0000FFFF (bit_swap 8 0x00FF00FF00FF00FF
                (bit_swap 4 0x0F0F0F0F0F0F0F0F (bit_swap 2 0x3333333333333333
                  (bit_swap 1 0x5555555555555555 v))))
      in drop_bit 32 v5 OR push_bit 32 v5)"
  by (simp add: bit_reverse_def bit_swap_def Let_def)

lemma bit_bit_reverse: "n < 64 \<Longrightarrow> bit (bit_reverse v) n \<longleftrightarrow> bit v (63 - n)"
  unfolding bit_reverse_swaps Let_def
  apply (simp add: less_numeral_pred)
  apply (elim disjE)
  apply (simp_all add: swap32 swap16 swap8 swap4 swap2 swap1)
  apply (simp_all add: numeral_2_eq_2 numeral_3_eq_3)
  done

lemma bit_reverse_involution: "bit_reverse (bit_reverse v) = v"
proof (rule bit_word_eqI)
  fix n assume "n < LENGTH(64)"
  then have n: "n < 64" by simp
  then have "63 - n < 64" by simp
  with n show "bit (bit_reverse (bit_reverse v)) n = bit v n"
    by (simp add: bit_bit_reverse)
qed

lemma bit_reverse_inj: "bit_reverse a = bit_reverse b \<Longrightarrow> a = b"
  by (metis bit_reverse_involution)

lemma bit_reverse_and: "bit_reverse (a AND b) = bit_reverse a AND bit_reverse b"
  by (rule bit_word_eqI) (simp add: bit_bit_reverse bit_and_iff)

lemma top_bit_clear:
  assumes "(h::hsh_t) < 2 ^ 63"
  shows "\<not> bit h 63"
proof -
  have "h AND mask 63 = h" by (rule less_mask_eq [OF assms])
  then have "bit h 63 = bit (h AND mask 63) 63" by simp
  then show ?thesis by (simp add: bit_and_iff bit_mask_iff)
qed

lemma key_tohash_normal:
  assumes "h < 2 ^ 63"
  shows "key_tohash (key_normal h) = h"
proof (rule bit_word_eqI)
  fix n assume "n < LENGTH(64)"
  then have n: "n < 64" by simp
  have top: "\<not> bit h 63" by (rule top_bit_clear [OF assms])
  show "bit (key_tohash (key_normal h)) n = bit h n"
  proof (cases "n = 63")
    case True
    with top show ?thesis
      by (simp add: key_tohash_def key_normal_def bit_bit_reverse bit_simps)
  next
    case False
    with n have "63 - n \<noteq> 0" "63 - n < 64" "63 - (63 - n) = n" by simp_all
    with n show ?thesis
      by (simp add: key_tohash_def key_normal_def bit_bit_reverse bit_simps)
  qed
qed

lemma bit_clearmsb_and: "\<exists>t. bit_clearmsb v = v AND t"
  by (auto simp: bit_clearmsb_def Let_def)

lemma key_marker_rev:
  assumes "\<not> bit b 63"
  shows "key_marker b = bit_reverse b"
proof (rule bit_word_eqI)
  fix n assume "n < LENGTH(64)"
  then have n: "n < 64" by simp
  show "bit (key_marker b) n = bit (bit_reverse b) n"
  proof (cases "n = 0")
    case True
    have "bit (bit_reverse b) 0 = bit b 63"
      using bit_bit_reverse [of 0 b] by simp
    with assms True show ?thesis
      by (simp add: key_marker_def bit_0 even_and_iff)
  next
    case False
    with n show ?thesis
      by (simp add: key_marker_def bit_simps)
  qed
qed

lemma key_marker_clearmsb:
  assumes "b \<noteq> 0" and "b < 2 ^ 63"
  shows "key_marker (bit_clearmsb b) < key_marker b"
proof -
  obtain t where t: "bit_clearmsb b = b AND t" using bit_clearmsb_and by blast
  have "key_marker (bit_clearmsb b) = key_marker b AND bit_reverse t"
    by (simp add: key_marker_def t bit_reverse_and ac_simps)
  then have le: "key_marker (bit_clearmsb b) \<le> key_marker b"
    by (simp add: word_and_le2)
  have top: "\<not> bit b 63" by (rule top_bit_clear [OF assms(2)])
  have lt: "bit_clearmsb b < b" by (rule bit_clearmsb_less [OF assms(1)])
  have top': "\<not> bit (bit_clearmsb b) 63"
    using top by (auto simp: t bit_and_iff)
  have m: "key_marker b = bit_reverse b"
    by (rule key_marker_rev [OF top])
  have m': "key_marker (bit_clearmsb b) = bit_reverse (bit_clearmsb b)"
    by (rule key_marker_rev [OF top'])
  have "key_marker (bit_clearmsb b) \<noteq> key_marker b"
    using lt by (auto simp: m m' dest: bit_reverse_inj)
  with le show ?thesis by simp
qed

lemma key_marker_less_normal:
  "key_marker (h AND m) < key_normal h"
proof -
  have "key_marker (h AND m) \<le> bit_reverse (h AND m)"
    by (simp add: key_marker_def word_and_le2)
  also have "\<dots> \<le> bit_reverse h"
    by (simp add: bit_reverse_and word_and_le2)
  also have "\<dots> \<le> key_normal h"
    by (simp add: key_normal_def le_word_or2)
  finally have le: "key_marker (h AND m) \<le> key_normal h" .
  have "bit (key_normal h) 0" by (simp add: key_normal_def bit_0 even_or_iff)
  moreover have "\<not> bit (key_marker (h AND m)) 0"
    by (simp add: key_marker_def bit_0 even_and_iff)
  ultimately have "key_marker (h AND m) \<noteq> key_normal h" by metis
  with le show ?thesis by simp
qed


subsection \<open>Hash table\<close>

lemma lst_walk_eq:
  "lst_walk pre key aft =
     ((case dropWhile (\<lambda>n. fst n < key) aft of
         [] \<Rightarrow> None
       | n # ns \<Rightarrow> if fst n = key then Some n else None),
      pre @ takeWhile (\<lambda>n. fst n < key) aft,
      dropWhile (\<lambda>n. fst n < key) aft)"
  by (induction aft arbitrary: pre) (auto simp: not_le)

lemma sorted_find_drop:
  assumes "sorted_wrt (<) (map fst l)"
  shows "(case dropWhile (\<lambda>n. fst n < key) l of
            [] \<Rightarrow> None
          | n # ns \<Rightarrow> if fst n = key then Some n else None)
         = find (\<lambda>n. fst n = (key::hsh_t)) l"
  using assms
proof (induction l)
  case Nil
  show ?case by simp
next
  case (Cons a l)
  show ?case
  proof (cases "fst a < key")
    case True
    with Cons show ?thesis by auto
  next
    case False
    show ?thesis
    proof (cases "fst a = key")
      case True
      then show ?thesis by simp
    next
      case ne: False
      with False have gt: "key < fst a" by simp
      have "\<forall>n \<in> set l. fst n \<noteq> key"
        using Cons.prems gt by auto
      then have "find (\<lambda>n. fst n = key) l = None"
        by (auto simp: find_None_iff)
      with False ne show ?thesis by simp
    qed
  qed
qed

lemma lst_from_split:
  "lst_from l head = Some (pre, aft) \<Longrightarrow> l = pre @ aft"
proof (cases head)
  case ListHead
  assume "lst_from l head = Some (pre, aft)"
  with ListHead show ?thesis by simp
next
  case (NodeAt k)
  assume a: "lst_from l head = Some (pre, aft)"
  from a NodeAt obtain n where d: "dropWhile (\<lambda>n. fst n \<noteq> k) l = n # aft"
    and pre: "pre = takeWhile (\<lambda>n. fst n \<noteq> k) l @ [n]"
    by (auto split: list.splits)
  show ?thesis
    unfolding pre using d
    by (metis append.assoc append_Cons append_Nil takeWhile_dropWhile_id)
qed

lemma lst_from_node:
  assumes "k \<in> fst ` set l"
  shows "\<exists>pre aft. lst_from l (NodeAt k) = Some (pre, aft) \<and> pre \<noteq> [] \<and> fst (last pre) = k"
proof -
  from assms have "dropWhile (\<lambda>n. fst n \<noteq> k) l \<noteq> []"
    by (auto simp: dropWhile_eq_Nil_conv)
  then obtain n aft where d: "dropWhile (\<lambda>n. fst n \<noteq> k) l = n # aft"
    by (cases "dropWhile (\<lambda>n. fst n \<noteq> k) l") auto
  then have "fst n = k" using hd_dropWhile [of "\<lambda>n. fst n \<noteq> k" l] by auto
  with d show ?thesis by simp
qed

text \<open>In a sorted list the search from a node whose key is below the key looked for
  gives the same result as the search from the head of the list.\<close>

lemma lst_search_sorted:
  assumes s: "sorted_wrt (<) (map fst l)"
    and h: "head = ListHead \<or> (\<exists>k. head = NodeAt k \<and> k \<in> fst ` set l \<and> k < key)"
  shows "lst_search l head key =
           Some (find (\<lambda>n. fst n = key) l,
                 takeWhile (\<lambda>n. fst n < key) l,
                 dropWhile (\<lambda>n. fst n < key) l)"
proof -
  obtain pre aft where f: "lst_from l head = Some (pre, aft)"
    and p: "\<forall>n \<in> set pre. fst n < key"
  proof (cases head)
    case ListHead
    then have "lst_from l head = Some ([], l)" by simp
    then show ?thesis using that by auto
  next
    case (NodeAt k)
    with h have k: "k \<in> fst ` set l" "k < key" by auto
    from lst_from_node [OF k(1)] obtain pre aft where
      f: "lst_from l (NodeAt k) = Some (pre, aft)" and ne: "pre \<noteq> []" and lk: "fst (last pre) = k"
      by blast
    have l: "l = pre @ aft" using lst_from_split [OF f] .
    have sp: "sorted_wrt (<) (map fst pre)" using s l by (simp add: sorted_wrt_append)
    have "\<forall>n \<in> set pre. fst n \<le> k"
    proof
      fix n assume "n \<in> set pre"
      then obtain i where i: "i < length pre" "pre ! i = n" by (auto simp: in_set_conv_nth)
      show "fst n \<le> k"
      proof (cases "i = length pre - 1")
        case True
        with i ne lk show ?thesis by (simp add: last_conv_nth)
      next
        case False
        with i have "i < length pre - 1" by simp
        with sp i ne have "fst (pre ! i) < fst (pre ! (length pre - 1))"
          by (auto simp: sorted_wrt_iff_nth_less)
        with i ne lk show ?thesis by (simp add: last_conv_nth)
      qed
    qed
    with k(2) have "\<forall>n \<in> set pre. fst n < key" by auto
    with f NodeAt show ?thesis using that by auto
  qed
  have l: "l = pre @ aft" using lst_from_split [OF f] .
  have sa: "sorted_wrt (<) (map fst aft)" using s l by (simp add: sorted_wrt_append)
  have t: "takeWhile (\<lambda>n. fst n < key) l = pre @ takeWhile (\<lambda>n. fst n < key) aft"
    using p l by (simp add: takeWhile_append2)
  have d: "dropWhile (\<lambda>n. fst n < key) l = dropWhile (\<lambda>n. fst n < key) aft"
    using p l by (simp add: dropWhile_append2)
  have "find (\<lambda>n. fst n = key) pre = None"
    using p by (auto simp: find_None_iff)
  then have fd: "find (\<lambda>n. fst n = key) l = find (\<lambda>n. fst n = key) aft"
    unfolding l by (induction pre) auto
  show ?thesis
    by (simp add: lst_search_def f lst_walk_eq sorted_find_drop [OF sa] t d fd)
qed


lemma set_lst_put: "set (lst_put l node) = insert node (set l)"
proof -
  have "set l = set (takeWhile (\<lambda>n. fst n < fst node) l @ dropWhile (\<lambda>n. fst n < fst node) l)"
    by simp
  then show ?thesis unfolding lst_put_def by (simp only: set_append set_simps) auto
qed

lemma sorted_lst_put:
  assumes "sorted_wrt (<) (map fst l)" and "fst node \<notin> fst ` set l"
  shows "sorted_wrt (<) (map fst (lst_put l node))"
  using assms
proof (induction l)
  case Nil
  show ?case by (simp add: lst_put_def)
next
  case (Cons a l)
  show ?case
  proof (cases "fst a < fst node")
    case True
    have ih: "sorted_wrt (<) (map fst (lst_put l node))"
      using Cons by simp
    have "\<forall>x \<in> set (lst_put l node). fst a < fst x"
      using Cons.prems True by (auto simp: set_lst_put)
    with ih True show ?thesis by (auto simp: lst_put_def)
  next
    case False
    with Cons.prems have lt: "fst node < fst a" by auto
    with Cons.prems have "\<forall>x \<in> set l. fst node < fst x" by fastforce
    with Cons.prems lt False show ?thesis by (simp add: lst_put_def)
  qed
qed

lemma find_key_sorted:
  fixes l :: "'v lst_t list"
  assumes "sorted_wrt (<) (map fst l)"
  shows "find (\<lambda>n. fst n = k) l = Some n \<longleftrightarrow> n \<in> set l \<and> fst n = k"
  using assms
proof (induction l)
  case Nil
  show ?case by simp
next
  case (Cons a l)
  show ?case
  proof (cases "fst a = k")
    case True
    have "\<forall>x \<in> set l. fst x \<noteq> k"
    proof
      fix x assume x: "x \<in> set l"
      from Cons.prems have "\<forall>y \<in> set l. fst a < fst y" by simp
      with x have "fst a < fst x" by blast
      with True show "fst x \<noteq> k" by simp
    qed
    with True show ?thesis by auto
  next
    case False
    with Cons show ?thesis by auto
  qed
qed

lemma find_key_None: "find (\<lambda>n. fst n = k) l = None \<longleftrightarrow> k \<notin> fst ` set l"
  by (force simp: find_None_iff)

lemma lst_insert_sorted:
  assumes s: "sorted_wrt (<) (map fst l)"
    and h: "head = ListHead \<or> (\<exists>k. head = NodeAt k \<and> k \<in> fst ` set l \<and> k < fst node)"
  shows "lst_insert l head node =
           Some (case find (\<lambda>n. fst n = fst node) l of
                   Some n \<Rightarrow> (False, n, l)
                 | None \<Rightarrow> (True, node, lst_put l node))"
  by (simp add: lst_insert_def lst_search_sorted [OF s h] lst_put_def split: option.splits)

lemma bkt_bound:
  assumes "k \<le> 32"
  shows "(h::hsh_t) AND (of_nat (2 ^ k) - 1) < 0x100000000"
proof -
  have e: "h AND (of_nat (2 ^ k) - 1) = take_bit k h"
    by (simp add: mask_eq_decr_exp take_bit_eq_mask)
  have "unat (take_bit k h) = take_bit k (unat h)"
    by (simp add: unsigned_take_bit_eq)
  also have "\<dots> < 2 ^ k" by simp
  also have "\<dots> \<le> (2::nat) ^ 32"
    using assms by (intro power_increasing) simp_all
  finally have "unat (take_bit k h) < 4294967296" by simp
  then show ?thesis
    unfolding e by (simp add: word_less_nat_alt)
qed


lemma key_ismark_marker: "key_ismark (key_marker b)"
  by (rule bit_word_eqI [THEN key_ismark_def [THEN iffD2]])
     (auto simp: key_marker_def bit_simps bit_0)

lemma key_ismark_normal: "\<not> key_ismark (key_normal h)"
proof
  assume "key_ismark (key_normal h)"
  then have "(bit_reverse h OR 1) AND 1 = 0" by (simp add: key_ismark_def key_normal_def)
  then have "bit ((bit_reverse h OR 1) AND 1) 0 = bit (0::hsh_t) 0" by simp
  then show False by (simp add: bit_0 even_and_iff even_or_iff)
qed

lemma map_frame_refl: "map_frame m m"
  by (simp add: map_frame_def list_all_iff)

lemma map_getbkt_ok:
  assumes "map_inv m" and "bkt < 0x100000000"
  shows "\<exists>m'. map_getbkt m bkt = Some (m', NodeAt (key_marker bkt)) \<and> map_inv m' \<and>
           key_marker bkt \<in> fst ` set (map_list m') \<and> map_frame m m'"
  using assms
proof (induction m bkt rule: map_getbkt.induct)
  case (1 m bkt)
  note inv = \<open>map_inv m\<close> and b = \<open>bkt < 0x100000000\<close>
  show ?case
  proof (cases "map_of (map_bucket m) bkt")
    case (Some k)
    then have "(bkt, k) \<in> set (map_bucket m)" by (rule map_of_SomeD)
    with inv have "k = key_marker bkt" "k \<in> fst ` set (map_list m)"
      by (auto simp: map_inv_def list_all_iff)
    with Some b inv show ?thesis
      by (subst map_getbkt.simps) (simp add: map_frame_refl)
  next
    case None
    have nz: "bkt \<noteq> 0"
    proof
      assume "bkt = 0"
      with None inv show False by (simp add: map_inv_def)
    qed
    let ?pb = "bit_clearmsb bkt"
    have pl: "?pb < bkt" by (rule bit_clearmsb_less [OF nz])
    with b have pb: "?pb < 0x100000000" by simp
    from "1.IH" [OF _ None nz inv pb] b
    obtain m1 where g: "map_getbkt m ?pb = Some (m1, NodeAt (key_marker ?pb))"
      and i1: "map_inv m1" and k1: "key_marker ?pb \<in> fst ` set (map_list m1)"
      and f1: "map_frame m m1"
      by auto
    have b63: "bkt < 2 ^ 63"
      using b by (rule less_trans) simp
    have lt: "key_marker ?pb < key_marker bkt"
      by (rule key_marker_clearmsb [OF nz b63])
    have s1: "sorted_wrt (<) (map fst (map_list m1))"
      using i1 by (simp add: map_inv_def)
    let ?node = "(key_marker bkt, None) :: 'a lst_t"
    have ins: "lst_insert (map_list m1) (NodeAt (key_marker ?pb)) ?node =
           Some (case find (\<lambda>n. fst n = fst ?node) (map_list m1) of
                   Some n \<Rightarrow> (False, n, map_list m1)
                 | None \<Rightarrow> (True, ?node, lst_put (map_list m1) ?node))"
      by (rule lst_insert_sorted [OF s1]) (use k1 lt in simp)
    show ?thesis
    proof (cases "find (\<lambda>n. fst n = key_marker bkt) (map_list m1)")
      case fn: (Some n)
      then have n: "n \<in> set (map_list m1)" "fst n = key_marker bkt"
        using find_key_sorted [OF s1] by auto
      let ?m' = "m1\<lparr>map_list := map_list m1, map_bucket := (bkt, fst n) # map_bucket m1\<rparr>"
      have r: "map_getbkt m bkt = Some (?m', NodeAt (key_marker bkt))"
        using None nz b g ins fn n by (subst map_getbkt.simps) simp
      have kin: "key_marker bkt \<in> fst ` set (map_list m1)"
        using n by force
      have "map_inv ?m'"
        using i1 n b nz kin by (auto simp: map_inv_def list_all_iff)
      moreover have "key_marker bkt \<in> fst ` set (map_list ?m')"
        using kin by simp
      moreover have "map_frame m ?m'"
        using f1 by (simp add: map_frame_def)
      ultimately show ?thesis using r by blast
    next
      case fn: None
      then have notin: "fst ?node \<notin> fst ` set (map_list m1)"
        by (simp add: find_key_None)
      let ?l' = "lst_put (map_list m1) ?node"
      let ?m' = "m1\<lparr>map_list := ?l', map_bucket := (bkt, key_marker bkt) # map_bucket m1\<rparr>"
      have r: "map_getbkt m bkt = Some (?m', NodeAt (key_marker bkt))"
        using None nz b g ins fn by (subst map_getbkt.simps) simp
      have sl: "sorted_wrt (<) (map fst ?l')"
        by (rule sorted_lst_put [OF s1 notin])
      have "map_inv ?m'"
        using i1 b nz sl key_ismark_marker [of bkt]
        by (auto simp: map_inv_def list_all_iff set_lst_put)
      moreover have "key_marker bkt \<in> fst ` set (map_list ?m')"
        by (simp add: set_lst_put)
      moreover have "map_frame m ?m'"
        using f1 by (auto simp: map_frame_def list_all_iff set_lst_put key_ismark_marker)
      ultimately show ?thesis using r by blast
    qed
  qed
qed


lemma key_normal_inj:
  assumes "key_normal a = key_normal b" and "a < 2 ^ 63" and "b < 2 ^ 63"
  shows "a = b"
  using assms key_tohash_normal by metis

lemma option_eqI: "(\<And>n. f = Some n \<longleftrightarrow> g = Some n) \<Longrightarrow> f = g"
  by (cases f; cases g) auto

lemma map_get_frame:
  assumes "map_inv m" and "map_inv m1" and "map_frame m m1"
  shows "map_get m1 h = map_get m h"
proof (rule option_eqI)
  fix n
  have s: "sorted_wrt (<) (map fst (map_list m))" "sorted_wrt (<) (map fst (map_list m1))"
    using assms by (simp_all add: map_inv_def)
  have "n \<in> set (map_list m1) \<and> fst n = key_normal h \<longleftrightarrow>
        n \<in> set (map_list m) \<and> fst n = key_normal h"
    using assms(3) key_ismark_normal [of h]
    by (auto simp: map_frame_def list_all_iff)
  then show "map_get m1 h = Some n \<longleftrightarrow> map_get m h = Some n"
    by (simp add: map_get_def find_key_sorted [OF s(1)] find_key_sorted [OF s(2)])
qed

lemma map_inv_bkt:
  assumes "map_inv m"
  shows "(h::hsh_t) AND (of_nat (map_size m) - 1) < 0x100000000"
proof -
  from assms obtain k where "k \<le> 32" "map_size m = 2 ^ k"
    by (auto simp: map_inv_def list_ex_iff)
  then show ?thesis using bkt_bound [where k = k and h = h] by simp
qed

lemma map_find_ok:
  assumes "map_inv m"
  shows "\<exists>m'. map_find m h = Some (m', map_get m h) \<and> map_inv m' \<and> map_frame m m'"
proof -
  let ?bkt = "h AND (of_nat (map_size m) - 1)"
  from map_getbkt_ok [OF assms map_inv_bkt [OF assms]]
  obtain m1 where g: "map_getbkt m ?bkt = Some (m1, NodeAt (key_marker ?bkt))"
    and i1: "map_inv m1" and k1: "key_marker ?bkt \<in> fst ` set (map_list m1)"
    and f1: "map_frame m m1"
    by blast
  have s1: "sorted_wrt (<) (map fst (map_list m1))"
    using i1 by (simp add: map_inv_def)
  have "lst_search (map_list m1) (NodeAt (key_marker ?bkt)) (key_normal h) =
          Some (find (\<lambda>n. fst n = key_normal h) (map_list m1),
                takeWhile (\<lambda>n. fst n < key_normal h) (map_list m1),
                dropWhile (\<lambda>n. fst n < key_normal h) (map_list m1))"
    by (rule lst_search_sorted [OF s1]) (use k1 key_marker_less_normal in simp)
  then have "lst_find (map_list m1) (NodeAt (key_marker ?bkt)) (key_normal h) =
          Some (map_get m1 h)"
    by (simp add: lst_find_def map_get_def)
  with g have "map_find m h = Some (m1, map_get m1 h)"
    by (simp add: map_find_def Let_def)
  with map_get_frame [OF assms i1 f1] i1 f1 show ?thesis by simp
qed

lemma map_insert_ok:
  assumes inv: "map_inv m" and cnt: "map_count m < 2 ^ 32"
  shows "\<exists>m'. map_insert m h v =
                Some (m', (case map_get m h of None \<Rightarrow> (key_normal h, Some v) | Some n \<Rightarrow> n),
                      map_get m h = None) \<and>
              map_inv m' \<and>
              map_count m' = (if map_get m h = None then map_count m + 1 else map_count m) \<and>
              map_get m' h =
                Some (case map_get m h of None \<Rightarrow> (key_normal h, Some v) | Some n \<Rightarrow> n) \<and>
              (\<forall>h'. key_normal h' \<noteq> key_normal h \<longrightarrow> map_get m' h' = map_get m h')"
proof -
  let ?bkt = "h AND (of_nat (map_size m) - 1)"
  let ?node = "(key_normal h, Some v)"
  from map_getbkt_ok [OF inv map_inv_bkt [OF inv]]
  obtain m1 where g: "map_getbkt m ?bkt = Some (m1, NodeAt (key_marker ?bkt))"
    and i1: "map_inv m1" and k1: "key_marker ?bkt \<in> fst ` set (map_list m1)"
    and f1: "map_frame m m1"
    by blast
  have s1: "sorted_wrt (<) (map fst (map_list m1))"
    using i1 by (simp add: map_inv_def)
  have gf: "\<And>h'. map_get m1 h' = map_get m h'"
    by (rule map_get_frame [OF inv i1 f1])
  have ins: "lst_insert (map_list m1) (NodeAt (key_marker ?bkt)) ?node =
           Some (case find (\<lambda>n. fst n = fst ?node) (map_list m1) of
                   Some n \<Rightarrow> (False, n, map_list m1)
                 | None \<Rightarrow> (True, ?node, lst_put (map_list m1) ?node))"
    by (rule lst_insert_sorted [OF s1]) (use k1 key_marker_less_normal in simp)
  show ?thesis
  proof (cases "map_get m h")
    case (Some n)
    then have fn: "find (\<lambda>n. fst n = key_normal h) (map_list m1) = Some n"
      using gf [of h] by (simp add: map_get_def)
    have "map_insert m h v = Some (m1, n, False)"
      using g ins fn by (simp add: map_insert_def Let_def)
    moreover have "map_count m1 = map_count m" using f1 by (simp add: map_frame_def)
    ultimately show ?thesis using Some i1 gf by simp
  next
    case None
    then have fn: "find (\<lambda>n. fst n = key_normal h) (map_list m1) = None"
      using gf [of h] by (simp add: map_get_def)
    then have notin: "fst ?node \<notin> fst ` set (map_list m1)"
      by (simp add: find_key_None)
    let ?l' = "lst_put (map_list m1) ?node"
    let ?m2 = "m1\<lparr>map_list := ?l', map_count := map_count m1 + 1\<rparr>"
    let ?m' = "if (map_count m1 + 1) div map_size m1 > map_grow m1
               then ?m2\<lparr>map_size := map_size m1 * 2\<rparr> else ?m2"
    have r: "map_insert m h v = Some (?m', ?node, True)"
      using g ins fn by (simp add: map_insert_def Let_def)
    have sl: "sorted_wrt (<) (map fst ?l')"
      by (rule sorted_lst_put [OF s1 notin])
    have c1: "map_count m1 = map_count m" and z1: "map_size m1 = map_size m"
      using f1 by (simp_all add: map_frame_def)
    from i1 obtain k where k: "k \<le> 32" "map_size m1 = 2 ^ k" and gr: "map_grow m1 = 8"
      by (auto simp: map_inv_def list_ex_iff)
    have sz: "list_ex (\<lambda>k. map_size ?m' = 2 ^ k) [0..<33]"
    proof (cases "(map_count m1 + 1) div map_size m1 > map_grow m1")
      case False
      with k show ?thesis by (auto simp: list_ex_iff)
    next
      case True
      have "k \<noteq> 32"
      proof
        assume "k = 32"
        with k have "map_size m1 = 2 ^ 32" by simp
        moreover have "map_count m1 + 1 \<le> 2 ^ 32" using cnt c1 by simp
        ultimately have "(map_count m1 + 1) div map_size m1 \<le> 1"
          by (simp add: div_le_mono [of _ "2 ^ 32" "2 ^ 32", simplified])
        with True gr show False by simp
      qed
      with k have "Suc k \<le> 32" "map_size m1 * 2 = 2 ^ Suc k" by simp_all
      with True show ?thesis by (auto simp: list_ex_iff intro!: bexI [of _ "Suc k"])
    qed
    have l': "map_list ?m' = ?l'" "map_bucket ?m' = map_bucket m1" "map_grow ?m' = map_grow m1"
      "map_count ?m' = map_count m + 1"
      using c1 by simp_all
    have inv': "map_inv ?m'"
      unfolding map_inv_def l' using i1 sl sz key_ismark_normal [of h]
      by (auto simp: map_inv_def list_all_iff set_lst_put)
    have get: "\<And>h' n. map_get ?m' h' = Some n \<longleftrightarrow>
                 n \<in> insert ?node (set (map_list m1)) \<and> fst n = key_normal h'"
      unfolding map_get_def l' find_key_sorted [OF sl] set_lst_put ..
    have g1: "map_get ?m' h = Some ?node"
      unfolding get using notin by auto
    have g2: "\<forall>h'. key_normal h' \<noteq> key_normal h \<longrightarrow> map_get ?m' h' = map_get m h'"
    proof (intro allI impI)
      fix h' assume ne: "key_normal h' \<noteq> key_normal h"
      show "map_get ?m' h' = map_get m h'"
      proof (rule option_eqI)
        fix n
        show "map_get ?m' h' = Some n \<longleftrightarrow> map_get m h' = Some n"
          unfolding get gf [of h', symmetric]
          using ne by (auto simp: map_get_def find_key_sorted [OF s1])
      qed
    qed
    show ?thesis
      unfolding None using r inv' l'(4) g1 g2 by (simp del: map_t.simps)
  qed
qed


lemma map_new_inv: "map_inv map_new"
  by (auto simp: map_inv_def map_new_def key_ismark_marker list_ex_iff intro!: bexI [of _ 4])

lemma map_new_get: "map_get map_new h = None"
  using key_ismark_marker [of 0] key_ismark_normal [of h]
  by (auto simp: map_get_def map_new_def)

text \<open>
  C7. For a table \<open>m\<close> that satisfies the invariant (as every table built from
  \<^verbatim>\<open>map_new\<close> by these operations does) with fewer than \<open>2^32\<close> entries, and 63-bit
  hashes \<open>h\<close> and \<open>h'\<close>: \<^verbatim>\<open>map_insert(h, v)\<close> returns the node of \<open>v\<close>, now in the
  list, and adds 1 to \<^verbatim>\<open>count\<close> when no node has the key of \<open>h\<close>; otherwise it returns
  the node already there and the count stays. A following \<^verbatim>\<open>map_find(h)\<close> returns that
  node; \<^verbatim>\<open>map_find(h')\<close> for another hash returns what the table held for \<open>h'\<close> before;
  and in the new table \<^verbatim>\<open>map_find\<close> returns \<^verbatim>\<open>NULL\<close>.
\<close>

theorem map_insert_find:
  assumes "map_inv m" and "map_count m < 2 ^ 32" and "h < 2 ^ 63" and "h' < 2 ^ 63"
  shows "\<exists>m1 e. map_insert m h v = Some (m1, e, map_get m h = None) \<and>
           e = (case map_get m h of None \<Rightarrow> (key_normal h, Some v) | Some n \<Rightarrow> n) \<and>
           map_count m1 = (if map_get m h = None then map_count m + 1 else map_count m) \<and>
           e \<in> set (map_list m1) \<and> map_inv m1 \<and>
           (\<exists>m2. map_find m1 h = Some (m2, Some e)) \<and>
           (\<exists>m2. map_find m1 h' = Some (m2, if h' = h then Some e else map_get m h')) \<and>
           (\<exists>m2. map_find (map_new :: 'v map_t) h' = Some (m2, None))"
proof -
  from map_insert_ok [OF assms(1,2), of h v] obtain m1 where
    r: "map_insert m h v =
          Some (m1, (case map_get m h of None \<Rightarrow> (key_normal h, Some v) | Some n \<Rightarrow> n),
                map_get m h = None)"
    and i1: "map_inv m1"
    and c1: "map_count m1 = (if map_get m h = None then map_count m + 1 else map_count m)"
    and g1: "map_get m1 h =
               Some (case map_get m h of None \<Rightarrow> (key_normal h, Some v) | Some n \<Rightarrow> n)"
    and g2: "\<forall>h'. key_normal h' \<noteq> key_normal h \<longrightarrow> map_get m1 h' = map_get m h'"
    by blast
  let ?e = "case map_get m h of None \<Rightarrow> (key_normal h, Some v) | Some n \<Rightarrow> n"
  have s1: "sorted_wrt (<) (map fst (map_list m1))" using i1 by (simp add: map_inv_def)
  have mem: "?e \<in> set (map_list m1)"
    using g1 find_key_sorted [OF s1] by (simp add: map_get_def)
  from map_find_ok [OF i1, of h] g1 have f1: "\<exists>m2. map_find m1 h = Some (m2, Some ?e)"
    by auto
  have "map_get m1 h' = (if h' = h then Some ?e else map_get m h')"
  proof (cases "h' = h")
    case True
    with g1 show ?thesis by simp
  next
    case False
    with assms(3,4) have "key_normal h' \<noteq> key_normal h"
      by (auto dest: key_normal_inj)
    with g2 False show ?thesis by simp
  qed
  with map_find_ok [OF i1, of h']
  have f2: "\<exists>m2. map_find m1 h' = Some (m2, if h' = h then Some ?e else map_get m h')"
    by auto
  have "\<exists>m'. map_find (map_new :: 'v map_t) h' = Some (m', map_get (map_new :: 'v map_t) h') \<and>
           map_inv m' \<and> map_frame (map_new :: 'v map_t) m'"
    by (rule map_find_ok [OF map_new_inv])
  then have f3: "\<exists>m2. map_find (map_new :: 'v map_t) h' = Some (m2, None)"
    by (auto simp: map_new_get)
  from r c1 mem i1 f1 f2 f3 show ?thesis by blast
qed

theorem map_insert_find_witness:
  "map_inv (map_new :: nat map_t) \<and> map_count (map_new :: nat map_t) < 2 ^ 32 \<and>
   (5::hsh_t) < 2 ^ 63 \<and> (6::hsh_t) < 2 ^ 63 \<and>
   (\<exists>m1. map_insert (map_new :: nat map_t) 5 42 = Some (m1, (key_normal 5, Some 42), True) \<and>
      map_count m1 = 1 \<and>
      (\<exists>m2. map_find m1 5 = Some (m2, Some (key_normal 5, Some 42))) \<and>
      (\<exists>m2. map_find m1 6 = Some (m2, None)))"
proof -
  have h1: "map_inv (map_new :: nat map_t)" by (rule map_new_inv)
  have h2: "map_count (map_new :: nat map_t) < 2 ^ 32" by (simp add: map_new_def)
  have h3: "(5::hsh_t) < 2 ^ 63" by simp
  have h4: "(6::hsh_t) < 2 ^ 63" by simp
  have c: "map_count (map_new :: nat map_t) = 0" by (simp add: map_new_def)
  from map_insert_find [OF h1 h2 h3 h4, of 42] h1 h2 h3 h4 show ?thesis
    by (simp add: map_new_get c) blast
qed



subsection \<open>Feature insertion\<close>

lemma map_get_SomeD:
  assumes "map_inv m" and "map_get m h = Some (k, p)"
  shows "k = key_normal h \<and> (\<exists>v. p = Some v) \<and> (k, p) \<in> set (map_list m)"
proof -
  have s: "sorted_wrt (<) (map fst (map_list m))" using assms(1) by (simp add: map_inv_def)
  from assms(2) have m: "(k, p) \<in> set (map_list m)" and k: "k = key_normal h"
    using find_key_sorted [OF s] by (auto simp: map_get_def)
  from assms(1) m have "key_ismark k \<longleftrightarrow> p = None"
    by (auto simp: map_inv_def list_all_iff)
  with k key_ismark_normal [of h] m show ?thesis by auto
qed

lemma map_store_list:
  "map fst (map_list (map_store m k v)) = map fst (map_list m)"
  by (auto simp: map_store_def)

lemma store_payload:
  "list_all (\<lambda>(k, p). key_ismark k \<longleftrightarrow> p = None) l \<Longrightarrow> \<not> key_ismark k \<Longrightarrow>
   list_all (\<lambda>(k, p). key_ismark k \<longleftrightarrow> p = None)
     (map (\<lambda>(k', p). if k' = k then (k', Some v) else (k', p)) l)"
  by (induction l) (auto split: if_splits)

lemma map_store_inv:
  assumes "map_inv m" and "\<not> key_ismark k"
  shows "map_inv (map_store m k v)"
proof -
  have f: "fst ` set (map_list (map_store m k v)) = fst ` set (map_list m)"
    using map_store_list [of m k v] by (metis list.set_map)
  have b: "map_bucket (map_store m k v) = map_bucket m" "map_size (map_store m k v) = map_size m"
    "map_grow (map_store m k v) = map_grow m"
    by (simp_all add: map_store_def)
  have p: "list_all (\<lambda>(k, p). key_ismark k \<longleftrightarrow> p = None) (map_list (map_store m k v))"
    using assms by (simp add: map_store_def map_inv_def store_payload)
  show ?thesis
    unfolding map_inv_def map_store_list f b using assms(1) p
    by (simp add: map_inv_def)
qed

lemma find_map_store:
  "find (\<lambda>n. fst n = k') (map (\<lambda>(k', p). if k' = k then (k', Some v) else (k', p)) l) =
     map_option (\<lambda>(k', p). if k' = k then (k', Some v) else (k', p)) (find (\<lambda>n. fst n = k') l)"
  by (induction l) auto

lemma map_get_store:
  "map_get (map_store m k v) h =
     map_option (\<lambda>(k', p). if k' = k then (k', Some v) else (k', p)) (map_get m h)"
  by (simp add: map_get_def map_store_def find_map_store)


lemma mdl_addftr_ok:
  assumes inv: "map_inv (mdl_ftrs mdl)" and cnt: "map_count (mdl_ftrs mdl) < 2 ^ 32"
    and tag: "tag < 128" and ne: "hsh \<noteq> []"
  shows "\<exists>mdl'. mdl_addftr mdl tag hsh frq alloc = Some (mdl', addftr_expect mdl tag hsh frq alloc) \<and>
           map_inv (mdl_ftrs mdl') \<and>
           map_get (mdl_ftrs mdl') (ftr_key tag hsh) =
             map_option (\<lambda>f. (key_normal (ftr_key tag hsh), Some f))
               (addftr_expect mdl tag hsh frq alloc)"
proof -
  let ?idx = "ftr_key tag hsh"
  from map_find_ok [OF inv, of ?idx] obtain m1 where
    f: "map_find (mdl_ftrs mdl) ?idx = Some (m1, map_get (mdl_ftrs mdl) ?idx)"
    and i1: "map_inv m1" and fr: "map_frame (mdl_ftrs mdl) m1"
    by blast
  have g1: "map_get m1 ?idx = map_get (mdl_ftrs mdl) ?idx"
    by (rule map_get_frame [OF inv i1 fr])
  have c1: "map_count m1 < 2 ^ 32" using fr cnt by (simp add: map_frame_def)
  show ?thesis
  proof (cases "map_get (mdl_ftrs mdl) ?idx")
    case (Some n)
    obtain k p where n: "n = (k, p)" by (cases n)
    from map_get_SomeD [OF inv Some [unfolded n]] obtain fv where
      k: "k = key_normal ?idx" and p: "p = Some fv" by blast
    have nm: "\<not> key_ismark k" using k key_ismark_normal by simp
    show ?thesis
    proof (cases frq)
      case True
      have "mdl_addftr mdl tag hsh frq alloc =
              Some (mdl\<lparr>mdl_ftrs := map_store m1 k (atm_add_frq fv)\<rparr>, Some (atm_add_frq fv))"
        using f Some n p True tag ne by (simp add: mdl_addftr_def Let_def)
      moreover have "map_inv (map_store m1 k (atm_add_frq fv))"
        by (rule map_store_inv [OF i1 nm])
      moreover have "map_get (map_store m1 k (atm_add_frq fv)) ?idx = Some (k, Some (atm_add_frq fv))"
        using g1 Some n p by (simp add: map_get_store)
      ultimately show ?thesis
        using Some n p True k by (simp add: addftr_expect_def)
    next
      case False
      have "mdl_addftr mdl tag hsh frq alloc = Some (mdl\<lparr>mdl_ftrs := m1\<rparr>, Some fv)"
        using f Some n p False tag ne by (simp add: mdl_addftr_def Let_def)
      then show ?thesis
        using Some n p False k i1 g1 by (simp add: addftr_expect_def)
    qed
  next
    case None
    show ?thesis
    proof (cases "mdl_itr mdl < mdl_stt mdl ! tag \<or> mdl_itr mdl \<ge> mdl_rem mdl ! tag \<or> \<not> alloc")
      case True
      have "mdl_addftr mdl tag hsh frq alloc = Some (mdl\<lparr>mdl_ftrs := m1\<rparr>, None)"
        using f None True tag ne by (auto simp: mdl_addftr_def Let_def)
      then show ?thesis
        using None True i1 g1 by (auto simp: addftr_expect_def)
    next
      case False
      from map_insert_ok [OF i1 c1, of ?idx ftr_zero] g1 None obtain m2 where
        r: "map_insert m1 ?idx ftr_zero = Some (m2, (key_normal ?idx, Some ftr_zero), True)"
        and i2: "map_inv m2"
        and g2: "map_get m2 ?idx = Some (key_normal ?idx, Some ftr_zero)"
        by auto
      have nm: "\<not> key_ismark (key_normal ?idx)" by (rule key_ismark_normal)
      let ?d = "case mdl_dump mdl of None \<Rightarrow> None | Some out \<Rightarrow> Some (out @ [?idx # hsh])"
      show ?thesis
      proof (cases frq)
        case True
        have "mdl_addftr mdl tag hsh frq alloc =
                Some (mdl\<lparr>mdl_ftrs := map_store m2 (key_normal ?idx) (atm_add_frq ftr_zero),
                          mdl_dump := ?d\<rparr>, Some (atm_add_frq ftr_zero))"
          using f None False r True tag ne by (simp add: mdl_addftr_def Let_def)
        moreover have "map_inv (map_store m2 (key_normal ?idx) (atm_add_frq ftr_zero))"
          by (rule map_store_inv [OF i2 nm])
        moreover have "map_get (map_store m2 (key_normal ?idx) (atm_add_frq ftr_zero)) ?idx =
                Some (key_normal ?idx, Some (atm_add_frq ftr_zero))"
          using g2 by (simp add: map_get_store)
        ultimately show ?thesis
          using None False True by (auto simp: addftr_expect_def)
      next
        case nf: False
        have "mdl_addftr mdl tag hsh frq alloc =
                Some (mdl\<lparr>mdl_ftrs := m2, mdl_dump := ?d\<rparr>, Some ftr_zero)"
          using f None False r nf tag ne by (simp add: mdl_addftr_def Let_def)
        then show ?thesis
          using None False nf i2 g2 by (auto simp: addftr_expect_def)
      qed
    qed
  qed
qed


lemma mask56: "drop_bit 8 (- 1 :: hsh_t) = mask 56"
  by (rule bit_word_eqI) (auto simp: bit_simps)

lemma ftr_key_hash: "take_bit 56 (ftr_key tag hsh) = take_bit 56 (hsh_buffer hsh)"
  by (rule bit_word_eqI) (auto simp: ftr_key_def mask56 bit_simps)

lemma tag_bit_high:
  assumes "tag < 128" and "7 \<le> n"
  shows "\<not> bit (tag::nat) n"
proof -
  have "(2::nat) ^ 7 \<le> 2 ^ n" using assms(2) by (intro power_increasing) simp_all
  with assms(1) have "tag < 2 ^ n" by simp
  then show ?thesis by (simp add: bit_iff_odd)
qed

lemma ftr_key_tag:
  assumes "tag < 128"
  shows "drop_bit 56 (ftr_key tag hsh) = of_nat tag"
proof (rule bit_word_eqI)
  fix n assume "n < LENGTH(64)"
  then have n: "n < 64" by simp
  show "bit (drop_bit 56 (ftr_key tag hsh)) n = bit (of_nat tag :: hsh_t) n"
  proof (cases "n < 8")
    case True
    then show ?thesis
      by (simp add: ftr_key_def mask56 bit_simps)
  next
    case False
    then have "\<not> bit tag n" using tag_bit_high [OF assms, of n] by simp
    with False n show ?thesis
      by (simp add: ftr_key_def mask56 bit_simps)
  qed
qed

lemma mdl_new_inv: "map_inv (mdl_ftrs mdl_new)" "map_count (mdl_ftrs mdl_new) < 2 ^ 32"
  by (simp_all add: mdl_new_def map_new_inv) (simp add: map_new_def)

lemma mdl_new_expect:
  "tag < 128 \<Longrightarrow>
   addftr_expect mdl_new tag hsh frq True = Some (if frq then atm_add_frq ftr_zero else ftr_zero)"
  by (simp add: addftr_expect_def mdl_new_def map_new_get)

text \<open>
  C8, as the code has it. For a tag below 128 and a non-empty hash array the key has the
  tag in its top 8 bits and the low 56 bits of the content hash below. If the table holds
  the key, the feature is returned, its \<open>frq\<close> incremented when the frequency is counted (the
  increment of the C \<^verbatim>\<open>int\<close> wraps around at \<^verbatim>\<open>INT_MAX\<close>), whatever the window. If it does not and the iteration is outside
  \<open>[stt[tag], rem[tag])\<close>, or the allocation fails, the result is \<^verbatim>\<open>NULL\<close>. Otherwise a
  zeroed feature is inserted and returned, with \<open>frq = 1\<close> when the frequency is counted.
  In each case the table then holds the feature returned under the key.
\<close>

theorem mdl_addftr_cases:
  assumes "map_inv (mdl_ftrs mdl)" and "map_count (mdl_ftrs mdl) < 2 ^ 32"
    and "tag < 128" and "hsh \<noteq> []"
  shows "drop_bit 56 (ftr_key tag hsh) = of_nat tag \<and>
         take_bit 56 (ftr_key tag hsh) = take_bit 56 (hsh_buffer hsh) \<and>
         (\<exists>mdl' r. mdl_addftr mdl tag hsh frq alloc = Some (mdl', r) \<and>
            r = (case map_get (mdl_ftrs mdl) (ftr_key tag hsh) of
                   Some (k, p) \<Rightarrow>
                     map_option (\<lambda>f. if frq then f\<lparr>ftr_frq := wrap_int (ftr_frq f + 1)\<rparr> else f) p
                 | None \<Rightarrow>
                     if mdl_itr mdl < mdl_stt mdl ! tag \<or> mdl_itr mdl \<ge> mdl_rem mdl ! tag
                     then None
                     else if \<not> alloc then None
                     else Some (ftr_zero\<lparr>ftr_frq := if frq then 1 else 0\<rparr>)) \<and>
            map_inv (mdl_ftrs mdl') \<and>
            map_get (mdl_ftrs mdl') (ftr_key tag hsh) =
              map_option (\<lambda>f. (key_normal (ftr_key tag hsh), Some f)) r)"
proof -
  from mdl_addftr_ok [OF assms, of frq alloc] obtain mdl' where
    r: "mdl_addftr mdl tag hsh frq alloc = Some (mdl', addftr_expect mdl tag hsh frq alloc)"
    and i: "map_inv (mdl_ftrs mdl')"
    and g: "map_get (mdl_ftrs mdl') (ftr_key tag hsh) =
             map_option (\<lambda>f. (key_normal (ftr_key tag hsh), Some f))
               (addftr_expect mdl tag hsh frq alloc)"
    by blast
  have e: "addftr_expect mdl tag hsh frq alloc =
           (case map_get (mdl_ftrs mdl) (ftr_key tag hsh) of
                   Some (k, p) \<Rightarrow>
                     map_option (\<lambda>f. if frq then f\<lparr>ftr_frq := wrap_int (ftr_frq f + 1)\<rparr> else f) p
                 | None \<Rightarrow>
                     if mdl_itr mdl < mdl_stt mdl ! tag \<or> mdl_itr mdl \<ge> mdl_rem mdl ! tag
                     then None
                     else if \<not> alloc then None
                     else Some (ftr_zero\<lparr>ftr_frq := if frq then 1 else 0\<rparr>))"
    by (auto simp: addftr_expect_def atm_add_frq_def wrap_int_def ftr_zero_def split: option.splits)
  from r i g show ?thesis
    unfolding e using ftr_key_tag [OF assms(3)] ftr_key_hash by blast
qed

theorem mdl_addftr_cases_witness:
  "map_inv (mdl_ftrs mdl_new) \<and> map_count (mdl_ftrs mdl_new) < 2 ^ 32 \<and> (3::nat) < 128 \<and>
   [1, 2] \<noteq> ([]::hsh_t list) \<and>
   drop_bit 56 (ftr_key 3 [1, 2]) = 3 \<and>
   (\<exists>mdl'. mdl_addftr mdl_new 3 [1, 2] False True = Some (mdl', Some ftr_zero) \<and>
      map_get (mdl_ftrs mdl') (ftr_key 3 [1, 2]) = Some (key_normal (ftr_key 3 [1, 2]), Some ftr_zero))"
proof -
  have h3: "(3::nat) < 128" and h4: "[1, 2] \<noteq> ([]::hsh_t list)" by simp_all
  have g: "map_get (mdl_ftrs mdl_new) (ftr_key 3 [1, 2]) = None"
    by (simp add: mdl_new_def map_new_get)
  have w: "\<not> (mdl_itr mdl_new < mdl_stt mdl_new ! 3 \<or> mdl_itr mdl_new \<ge> mdl_rem mdl_new ! 3)"
    by (simp add: mdl_new_def)
  have z: "ftr_zero\<lparr>ftr_frq := 0\<rparr> = ftr_zero" by (simp add: ftr_zero_def)
  from mdl_addftr_cases [OF mdl_new_inv h3 h4, of False True] g w z mdl_new_inv show ?thesis
    by auto
qed

text \<open>
  The feature returned for a new key is not zero-initialised when the frequency is
  counted: in the new model, tag 0 and the hash array \<open>[1]\<close> give a feature with
  \<open>frq = 1\<close>.
\<close>

theorem mdl_addftr_new_frq:
  "map_option snd (mdl_addftr mdl_new 0 [1] True True) = Some (Some (ftr_zero\<lparr>ftr_frq := 1\<rparr>)) \<and>
   ftr_zero\<lparr>ftr_frq := 1\<rparr> \<noteq> ftr_zero"
proof -
  have "(0::nat) < 128" and "[1] \<noteq> ([]::hsh_t list)" by simp_all
  from mdl_addftr_ok [OF mdl_new_inv this, of True True]
  have "map_option snd (mdl_addftr mdl_new 0 [1] True True) = Some (Some (atm_add_frq ftr_zero))"
    by (auto simp: mdl_new_expect)
  then show ?thesis by (simp add: atm_add_frq_def wrap_int_def ftr_zero_def)
qed

subsection \<open>Saving and reloading a model\<close>



















subsection \<open>Viterbi decoding\<close>





















































end
